theory Spec2Isabelle
  imports Main "HOL-Library.Sublist"
begin

section \<open>Permutations as immutable 0-indexed tuples\<close>

text \<open>
  A \<^verbatim>\<open>Permutation\<close> is a Python tuple of ints; its entries are modelled as an
  \<open>int list\<close>.  Python exceptions are values of the type \<open>error\<close>; a function that
  may raise returns \<open>error + 'a\<close> with \<open>Inl\<close> for the exception.
\<close>

datatype error = ValueError | AssertionError | IndexError | Exception

type_synonym perm = "int list"

text \<open>Sequencing of computations that may raise: the first exception propagates.\<close>

definition bind_err :: "error + 'a \<Rightarrow> ('a \<Rightarrow> error + 'b) \<Rightarrow> error + 'b" where
  "bind_err m f = (case m of Inl e \<Rightarrow> Inl e | Inr x \<Rightarrow> f x)"

lemma bind_err_cong [fundef_cong]:
  "m = m' \<Longrightarrow> (\<And>x. m' = Inr x \<Longrightarrow> f x = f' x) \<Longrightarrow> bind_err m f = bind_err m' f'"
  by (auto simp: bind_err_def split: sum.splits)

text \<open>
  Python subscripting \<^verbatim>\<open>xs[i]\<close> and \<^verbatim>\<open>xs[i] = v\<close> with an \<^verbatim>\<open>int\<close> index: a negative
  index counts from the end, an index out of range raises \<^verbatim>\<open>IndexError\<close>.
\<close>

definition py_pos :: "nat \<Rightarrow> int \<Rightarrow> nat option" where
  "py_pos len i =
     (if 0 \<le> i \<and> i < int len then Some (nat i)
      else if i < 0 \<and> - int len \<le> i then Some (nat (int len + i))
      else None)"

definition py_get :: "'a list \<Rightarrow> int \<Rightarrow> error + 'a" where
  "py_get xs i = (case py_pos (length xs) i of Some k \<Rightarrow> Inr (xs ! k) | None \<Rightarrow> Inl IndexError)"

definition py_set :: "'a list \<Rightarrow> int \<Rightarrow> 'a \<Rightarrow> error + 'a list" where
  "py_set xs i v =
     (case py_pos (length xs) i of Some k \<Rightarrow> Inr (xs[k := v]) | None \<Rightarrow> Inl IndexError)"

lemma py_pos_less: "py_pos len i = Some k \<Longrightarrow> k < len"
  by (auto simp: py_pos_def split: if_splits)

lemma py_pos_nonneg: "0 \<le> i \<Longrightarrow> py_pos len i = (if i < int len then Some (nat i) else None)"
  by (simp add: py_pos_def)

lemma py_set_Inr:
  "py_set xs i v = Inr ys \<Longrightarrow> 0 \<le> i \<Longrightarrow> ys = xs[nat i := v] \<and> nat i < length xs"
  by (auto simp: py_set_def py_pos_nonneg split: if_splits)

lemma py_get_Inr:
  "py_get xs i = Inr x \<Longrightarrow> 0 \<le> i \<Longrightarrow> x = xs ! nat i \<and> nat i < length xs"
  by (auto simp: py_get_def py_pos_nonneg split: if_splits)

lemma py_get_py_set_same:
  "py_set xs i v = Inr ys \<Longrightarrow> py_get ys i = Inr v"
proof -
  assume a: "py_set xs i v = Inr ys"
  then obtain k where k: "py_pos (length xs) i = Some k" and ys: "ys = xs[k := v]"
    by (auto simp: py_set_def split: option.splits)
  from py_pos_less [OF k] k ys show ?thesis by (simp add: py_get_def)
qed

lemma py_get_in_range: "0 \<le> i \<Longrightarrow> i < int (length xs) \<Longrightarrow> py_get xs i = Inr (xs ! nat i)"
  by (simp add: py_get_def py_pos_nonneg)

lemma py_set_in_range:
  "0 \<le> i \<Longrightarrow> i < int (length xs) \<Longrightarrow> py_set xs i v = Inr (xs[nat i := v])"
  by (simp add: py_set_def py_pos_nonneg)

lemma py_get_same_slot:
  "length ys = length xs \<Longrightarrow> 0 \<le> i \<Longrightarrow> ys ! nat i = xs ! nat i \<Longrightarrow> py_get ys i = py_get xs i"
  by (simp add: py_get_def py_pos_nonneg)

text \<open>
  The precondition of \<^verbatim>\<open>clean=True\<close>: the entries contain each element of
  \<^verbatim>\<open>range(len(p))\<close> exactly once.
\<close>

definition is_perm :: "perm \<Rightarrow> bool" where
  "is_perm p = (distinct p \<and> list_all (\<lambda>v. 0 \<le> v \<and> v < int (length p)) p)"

subsection \<open>Direct sum and skew sum\<close>

text \<open>\<^verbatim>\<open>__add__\<close>: \<^verbatim>\<open>Permutation(list(self) + [i+n for i in other], clean=True)\<close>.\<close>

definition direct_sum :: "perm \<Rightarrow> perm \<Rightarrow> perm" where
  "direct_sum self other = (let n = int (length self) in self @ map (\<lambda>i. i + n) other)"

text \<open>\<^verbatim>\<open>__sub__\<close>: \<^verbatim>\<open>Permutation([i+m for i in self] + list(other), clean=True)\<close>.\<close>

definition skew_sum :: "perm \<Rightarrow> perm \<Rightarrow> perm" where
  "skew_sum self other = (let m = int (length other) in map (\<lambda>i. i + m) self @ other)"

subsection \<open>Sum and skew decomposition\<close>

text \<open>
  The scan \<^verbatim>\<open>for idx, val in enumerate(self[:-1])\<close> of \<^verbatim>\<open>sum_decomposition\<close> with its
  two running sets; it yields the first \<open>idx\<close> at which \<^verbatim>\<open>indices == vals\<close>.
\<close>

fun sum_scan :: "int list \<Rightarrow> nat \<Rightarrow> int set \<Rightarrow> int set \<Rightarrow> nat option" where
  "sum_scan [] idx indices vals = None"
| "sum_scan (val # rest) idx indices vals =
     (let indices' = insert (int idx) indices;
          vals' = insert val vals
      in if indices' = vals' then Some idx
         else sum_scan rest (Suc idx) indices' vals')"

function sum_decomposition :: "perm \<Rightarrow> perm list" where
  "sum_decomposition self =
     (if length self = 0 then []
      else (case sum_scan (butlast self) 0 {} {} of
              Some idx \<Rightarrow>
                (let component = take (idx + 1) self;
                     rest = map (\<lambda>val. val - int idx - 1) (drop (idx + 1) self)
                 in [component] @ sum_decomposition rest)
            | None \<Rightarrow> [self]))"
  by pat_completeness auto
termination
  by (relation "measure length") auto

text \<open>The scan of \<^verbatim>\<open>skew_decomposition\<close>, which records \<^verbatim>\<open>n-val-1\<close> instead of \<^verbatim>\<open>val\<close>.\<close>

fun skew_scan :: "int \<Rightarrow> int list \<Rightarrow> nat \<Rightarrow> int set \<Rightarrow> int set \<Rightarrow> nat option" where
  "skew_scan n [] idx indices vals = None"
| "skew_scan n (val # rest) idx indices vals =
     (let indices' = insert (int idx) indices;
          vals' = insert (n - val - 1) vals
      in if indices' = vals' then Some idx
         else skew_scan n rest (Suc idx) indices' vals')"

function skew_decomposition :: "perm \<Rightarrow> perm list" where
  "skew_decomposition self =
     (if self = [] then []
      else (let n = int (length self) in
            case skew_scan n (butlast self) 0 {} {} of
              Some idx \<Rightarrow>
                (let component = [map (\<lambda>value. value - (n - int idx) + 1) (take (idx + 1) self)];
                     rest = drop (idx + 1) self
                 in component @ skew_decomposition rest)
            | None \<Rightarrow> [self]))"
  by pat_completeness auto
termination
  by (relation "measure length") auto

section \<open>Pattern containment\<close>

subsection \<open>The bound arrays\<close>

text \<open>
  The body of the inner loop \<^verbatim>\<open>for j in range(i+1,len(self))\<close> of \<^verbatim>\<open>set_up_bounds\<close>;
  its state is \<^verbatim>\<open>(min_above, max_below, lower_bound, upper_bound)\<close>.
\<close>

definition set_up_bounds_inner ::
  "int list \<Rightarrow> nat \<Rightarrow> nat \<Rightarrow> int \<times> int \<times> int list \<times> int list \<Rightarrow> int \<times> int \<times> int list \<times> int list" where
  "set_up_bounds_inner L i j s =
     (case s of (min_above, max_below, lower_bound, upper_bound) \<Rightarrow>
        if L ! j < L ! i then
          (if L ! j > max_below
           then (min_above, L ! j, lower_bound[i := int j], upper_bound)
           else (min_above, max_below, lower_bound, upper_bound))
        else
          (if L ! j < min_above \<or> min_above = -1
           then (L ! j, max_below, lower_bound, upper_bound[i := int j])
           else (min_above, max_below, lower_bound, upper_bound)))"

text \<open>The body of the outer loop \<^verbatim>\<open>for i in range(0,n)\<close>.\<close>

definition set_up_bounds_outer :: "int list \<Rightarrow> nat \<Rightarrow> int list \<times> int list \<Rightarrow> int list \<times> int list" where
  "set_up_bounds_outer L i s =
     (case s of (lower_bound, upper_bound) \<Rightarrow>
        (let min_above = -1; max_below = -1 in
         case fold (set_up_bounds_inner L i) [i + 1 ..< length L]
                (min_above, max_below, lower_bound, upper_bound) of
           (min_above, max_below, lower_bound, upper_bound) \<Rightarrow> (lower_bound, upper_bound)))"

definition set_up_bounds :: "perm \<Rightarrow> int list \<times> int list" where
  "set_up_bounds self =
     (let L = self; n = length L;
          upper_bound = replicate n (-1);
          lower_bound = replicate n (-1)
      in fold (set_up_bounds_outer L) [0 ..< n] (lower_bound, upper_bound))"

subsection \<open>The backtracking search\<close>

text \<open>
  \<^verbatim>\<open>involvement_fits\<close>, with Python's evaluation order and short-circuiting; every
  subscript may raise.
\<close>

definition involvement_fits ::
  "int list \<Rightarrow> int list \<Rightarrow> int list \<Rightarrow> perm \<Rightarrow> int \<Rightarrow> error + bool" where
  "involvement_fits upper_bound lower_bound indices q nxt =
     bind_err (py_get lower_bound nxt) (\<lambda>l.
     bind_err (if l = -1 then Inr True
               else bind_err (py_get indices nxt) (\<lambda>a. bind_err (py_get q a) (\<lambda>x.
                    bind_err (py_get indices l) (\<lambda>b. bind_err (py_get q b) (\<lambda>y.
                    Inr (x > y)))))) (\<lambda>above.
     if \<not> above then Inr False
     else bind_err (py_get upper_bound nxt) (\<lambda>u.
          if u = -1 then Inr True
          else bind_err (py_get indices nxt) (\<lambda>a. bind_err (py_get q a) (\<lambda>x.
               bind_err (py_get indices u) (\<lambda>b. bind_err (py_get q b) (\<lambda>y.
               Inr (x < y))))))))"

text \<open>
  \<^verbatim>\<open>involvement_check\<close> and its \<^verbatim>\<open>while indices[next] >= 0\<close> loop.  The list
  \<^verbatim>\<open>indices\<close> is shared and mutated in place by the recursive calls, so both functions
  return it next to their result and the caller goes on with the returned list.
\<close>

function (domintros)
  involvement_check ::
    "int list \<Rightarrow> int list \<Rightarrow> int list \<Rightarrow> perm \<Rightarrow> int \<Rightarrow> error + bool \<times> int list"
  and involvement_check_while ::
    "int list \<Rightarrow> int list \<Rightarrow> int list \<Rightarrow> perm \<Rightarrow> int \<Rightarrow> error + bool \<times> int list"
where
  "involvement_check upper_bound lower_bound indices q nxt =
     (if nxt < 0 then Inr (True, indices)
      else bind_err (py_get indices (nxt + 1)) (\<lambda>v.
           bind_err (py_set indices nxt (v - 1)) (\<lambda>indices.
           involvement_check_while upper_bound lower_bound indices q nxt)))"
| "involvement_check_while upper_bound lower_bound indices q nxt =
     bind_err (py_get indices nxt) (\<lambda>t.
       if t \<ge> 0 then
         bind_err (involvement_fits upper_bound lower_bound indices q nxt) (\<lambda>fits.
         bind_err (if fits then involvement_check upper_bound lower_bound indices q (nxt - 1)
                   else Inr (False, indices)) (\<lambda>(found, indices).
         if found then Inr (True, indices)
         else bind_err (py_get indices nxt) (\<lambda>t.
              bind_err (py_set indices nxt (t - 1)) (\<lambda>indices.
              involvement_check_while upper_bound lower_bound indices q nxt))))
       else Inr (False, indices))"
  by pat_completeness auto

text \<open>
  Termination.  The loop counter lives in the shared list, so the measure of the loop
  needs the frame of the recursive call first: a call at level \<open>m\<close> leaves the length
  of \<^verbatim>\<open>indices\<close> and every slot above \<open>m\<close> as they were.
\<close>

lemma involvement_check_frame_dom:
  "involvement_check_involvement_check_while_dom (Inl (ub, lb, ind, q, m)) \<Longrightarrow>
     involvement_check ub lb ind q m = Inr (b, ind') \<longrightarrow>
       length ind' = length ind \<and> (\<forall>k. m < int k \<longrightarrow> ind' ! k = ind ! k)"
  "involvement_check_involvement_check_while_dom (Inr (ub2, lb2, ind2, q2, m2)) \<Longrightarrow>
     0 \<le> m2 \<longrightarrow> involvement_check_while ub2 lb2 ind2 q2 m2 = Inr (b2, ind2') \<longrightarrow>
       length ind2' = length ind2 \<and> (\<forall>k. m2 < int k \<longrightarrow> ind2' ! k = ind2 ! k)"
proof (induction ub lb ind q m and ub2 lb2 ind2 q2 m2 arbitrary: b ind' and b2 ind2'
       rule: involvement_check_involvement_check_while.pinduct)
  case (1 ub lb ind q m)
  show ?case
  proof (intro impI)
    assume r: "involvement_check ub lb ind q m = Inr (b, ind')"
    show "length ind' = length ind \<and> (\<forall>k. m < int k \<longrightarrow> ind' ! k = ind ! k)"
    proof (cases "m < 0")
      case True
      with r "1.hyps" show ?thesis by (simp add: involvement_check.psimps)
    next
      case False
      with r "1.hyps" obtain v ind1 where
        g: "py_get ind (m + 1) = Inr v" and s: "py_set ind m (v - 1) = Inr ind1"
        and w: "involvement_check_while ub lb ind1 q m = Inr (b, ind')"
        by (auto simp: involvement_check.psimps bind_err_def split: sum.splits)
      from py_set_Inr [OF s] False have i1: "ind1 = ind[nat m := v - 1]" by simp
      from "1.IH" [OF False g s] False w
      have "length ind' = length ind1 \<and> (\<forall>k. m < int k \<longrightarrow> ind' ! k = ind1 ! k)" by simp
      with i1 False show ?thesis by (auto simp: nth_list_update)
    qed
  qed
next
  case (2 ub lb ind q m)
  show ?case
  proof (intro impI)
    assume m0: "0 \<le> m" and r: "involvement_check_while ub lb ind q m = Inr (b2, ind2')"
    from r "2.hyps" obtain t where g: "py_get ind m = Inr t"
      by (auto simp: involvement_check_while.psimps bind_err_def split: sum.splits)
    show "length ind2' = length ind \<and> (\<forall>k. m < int k \<longrightarrow> ind2' ! k = ind ! k)"
    proof (cases "0 \<le> t")
      case False
      with r g "2.hyps" show ?thesis
        by (simp add: involvement_check_while.psimps bind_err_def)
    next
      case t0: True
      from r g t0 "2.hyps" obtain fits found ind1 where
        f: "involvement_fits ub lb ind q m = Inr fits"
        and c: "(if fits then involvement_check ub lb ind q (m - 1) else Inr (False, ind))
                = Inr (found, ind1)"
        by (auto simp: involvement_check_while.psimps bind_err_def split: sum.splits)
      have fr1: "length ind1 = length ind \<and> (\<forall>k. m - 1 < int k \<longrightarrow> ind1 ! k = ind ! k)"
      proof (cases fits)
        case True
        with c have "involvement_check ub lb ind q (m - 1) = Inr (found, ind1)" by simp
        with "2.IH"(1) [OF g t0 f True] show ?thesis by simp
      next
        case False
        with c show ?thesis by simp
      qed
      show ?thesis
      proof (cases found)
        case True
        with r g t0 f c "2.hyps" have "ind2' = ind1"
          by (simp add: involvement_check_while.psimps bind_err_def)
        with fr1 show ?thesis by auto
      next
        case False
        with r g t0 f c "2.hyps" obtain t' ind3 where
          g': "py_get ind1 m = Inr t'" and s': "py_set ind1 m (t' - 1) = Inr ind3"
          and w: "involvement_check_while ub lb ind3 q m = Inr (b2, ind2')"
          by (auto simp: involvement_check_while.psimps bind_err_def split: sum.splits)
        from py_set_Inr [OF s' m0] have i3: "ind3 = ind1[nat m := t' - 1]" by simp
        from "2.IH"(2) [OF g t0 f c refl False g' s'] m0 w
        have "length ind2' = length ind3 \<and> (\<forall>k. m < int k \<longrightarrow> ind2' ! k = ind3 ! k)" by simp
        with i3 fr1 m0 show ?thesis by (auto simp: nth_list_update)
      qed
    qed
  qed
qed

termination involvement_check
proof (relation "inv_image (less_than <*lex*> less_than)
         (\<lambda>x. case x of
            Inl (ub, lb, ind, q, nxt) \<Rightarrow> (2 * nat (nxt + 1) + (if nxt < 0 then 0 else 2), 0)
          | Inr (ub, lb, ind, q, nxt) \<Rightarrow>
              (2 * nat (nxt + 1) + 1,
               case py_get ind nxt of Inr t \<Rightarrow> nat (t + 1) | Inl e \<Rightarrow> 0))",
       goal_cases)
  case 1
  show ?case by auto
next
  case (2 ub lb ind q nxt v ind1)
  then show ?case by simp
next
  case (3 ub lb ind q nxt t fits)
  then show ?case by auto
next
  case (4 ub lb ind q nxt t fits r found ind1 t' ind3)
  have same: "py_get ind1 nxt = py_get ind nxt"
  proof (cases fits)
    case False
    with 4 show ?thesis by auto
  next
    case True
    with 4 have c: "involvement_check ub lb ind q (nxt - 1) = Inr (found, ind1)"
      and d: "involvement_check_involvement_check_while_dom (Inl (ub, lb, ind, q, nxt - 1))"
      by auto
    show ?thesis
    proof (cases "nxt < 0")
      case True
      with c d 4 show ?thesis by (simp add: involvement_check.psimps)
    next
      case False
      with involvement_check_frame_dom(1) [OF d] c
      have "length ind1 = length ind \<and> ind1 ! nat nxt = ind ! nat nxt" by auto
      with False show ?thesis by (intro py_get_same_slot) auto
    qed
  qed
  from 4 same have t': "t' = t" by simp
  from 4 have "py_get ind3 nxt = Inr (t' - 1)"
    by (simp add: py_get_py_set_same)
  with 4 t' show ?case by simp
qed

lemma involvement_check_total:
  "involvement_check_involvement_check_while_dom (Inl (ub, lb, ind, q, m))"
  "involvement_check_involvement_check_while_dom (Inr (ub2, lb2, ind2, q2, m2))"
proof (induction ub lb ind q m and ub2 lb2 ind2 q2 m2
       rule: involvement_check_involvement_check_while.induct)
  case (1 ub lb ind q m)
  then show ?case by (auto intro: involvement_check_involvement_check_while.domintros(1))
next
  case (2 ub lb ind q m)
  show ?case
    by (rule involvement_check_involvement_check_while.domintros(2)) (auto intro: 2)
qed

lemma involvement_check_frame:
  "involvement_check ub lb ind q m = Inr (b, ind') \<Longrightarrow>
     length ind' = length ind \<and> (\<forall>k. m < int k \<longrightarrow> ind' ! k = ind ! k)"
  using involvement_check_frame_dom(1) [OF involvement_check_total(1)] by blast

lemma involvement_check_while_frame:
  "involvement_check_while ub lb ind q m = Inr (b, ind') \<Longrightarrow> 0 \<le> m \<Longrightarrow>
     length ind' = length ind \<and> (\<forall>k. m < int k \<longrightarrow> ind' ! k = ind ! k)"
  using involvement_check_frame_dom(2) [OF involvement_check_total(2)] by blast

text \<open>
  The loop \<^verbatim>\<open>while indices[len(self)-1] >= 0\<close> of \<^verbatim>\<open>involved_in\<close>
  (\<^verbatim>\<open>last_require == 0\<close>).
\<close>

function involved_in_while ::
  "perm \<Rightarrow> int list \<Rightarrow> int list \<Rightarrow> int list \<Rightarrow> perm \<Rightarrow> error + bool" where
  "involved_in_while self upper_bound lower_bound indices P =
     bind_err (py_get indices (int (length self) - 1)) (\<lambda>t.
       if t \<ge> 0 then
         bind_err (involvement_check upper_bound lower_bound indices P (int (length self) - 2))
           (\<lambda>(found, indices).
         if found then Inr True
         else bind_err (py_get indices (int (length self) - 1)) (\<lambda>t.
              bind_err (py_set indices (int (length self) - 1) (t - 1)) (\<lambda>indices.
              involved_in_while self upper_bound lower_bound indices P)))
       else Inr False)"
  by pat_completeness auto
termination
proof (relation "measure (\<lambda>(self, ub, lb, ind, P).
         case py_get ind (int (length self) - 1) of Inr t \<Rightarrow> nat (t + 1) | Inl e \<Rightarrow> 0)",
       goal_cases)
  case 1
  show ?case by simp
next
  case (2 self ub lb ind P t r found ind1 t' ind3)
  then have c: "involvement_check ub lb ind P (int (length self) - 2) = Inr (found, ind1)"
    by simp
  have same: "py_get ind1 (int (length self) - 1) = py_get ind (int (length self) - 1)"
  proof (cases "int (length self) - 2 < 0")
    case True
    with c 2 show ?thesis by simp
  next
    case False
    with involvement_check_frame [OF c]
    have "length ind1 = length ind \<and> ind1 ! nat (int (length self) - 1) = ind ! nat (int (length self) - 1)"
      by auto
    with False show ?thesis by (intro py_get_same_slot) auto
  qed
  from 2 same have t': "t' = t" by simp
  from 2 have "py_get ind3 (int (length self) - 1) = Inr (t' - 1)"
    by (simp add: py_get_py_set_same)
  with 2 t' show ?case by simp
qed

text \<open>
  The branch \<^verbatim>\<open>last_require != 0\<close>: the loop
  \<^verbatim>\<open>for i in range(1, last_require+1): indices[n-i] = p-i\<close> and
  \<^verbatim>\<open>involvement_check_final\<close>.
\<close>

fun set_last_indices :: "int list \<Rightarrow> int \<Rightarrow> int \<Rightarrow> int list \<Rightarrow> error + int list" where
  "set_last_indices indices n p [] = Inr indices"
| "set_last_indices indices n p (i # rest) =
     bind_err (py_set indices (n - i) (p - i)) (\<lambda>indices. set_last_indices indices n p rest)"

fun involvement_check_final_loop ::
  "perm \<Rightarrow> int list \<Rightarrow> int list \<Rightarrow> int list \<Rightarrow> perm \<Rightarrow> int list \<Rightarrow> error + bool" where
  "involvement_check_final_loop self upper_bound lower_bound indices q [] = Inr True"
| "involvement_check_final_loop self upper_bound lower_bound indices q (i # rest) =
     bind_err (involvement_fits upper_bound lower_bound indices q (int (length self) - i - 1))
       (\<lambda>fits. if \<not> fits then Inr False
               else involvement_check_final_loop self upper_bound lower_bound indices q rest)"

definition involvement_check_final ::
  "perm \<Rightarrow> int list \<Rightarrow> int list \<Rightarrow> int list \<Rightarrow> perm \<Rightarrow> int \<Rightarrow> error + bool" where
  "involvement_check_final self upper_bound lower_bound indices q last_require =
     involvement_check_final_loop self upper_bound lower_bound indices q [1 .. last_require - 1]"

text \<open>
  The part of \<^verbatim>\<open>involved_in\<close> that follows the degenerate-case return: it works on
  the local list \<^verbatim>\<open>indices\<close> and reads the bound arrays of \<^verbatim>\<open>self\<close>.
\<close>

definition involved_in_search ::
  "perm \<Rightarrow> int list \<Rightarrow> int list \<Rightarrow> perm \<Rightarrow> int \<Rightarrow> error + bool" where
  "involved_in_search self upper_bound lower_bound P last_require =
     (let n = int (length self); p = int (length P);
          indices = replicate (length self) 0
      in if last_require = 0 then
           bind_err (py_set indices (int (length self) - 1) (p - 1)) (\<lambda>indices.
           involved_in_while self upper_bound lower_bound indices P)
         else
           bind_err (set_last_indices indices n p [1 .. last_require]) (\<lambda>indices.
           bind_err (involvement_check_final self upper_bound lower_bound indices P last_require)
             (\<lambda>ok.
           if \<not> ok then Inr False
           else bind_err (involvement_check upper_bound lower_bound indices P
                            (int (length self) - last_require - 1))
                  (\<lambda>(found, indices). Inr found))))"

subsection \<open>Permutation objects and their attributes\<close>

text \<open>
  A \<^verbatim>\<open>Permutation\<close> instance carries, next to its immutable entries, the instance
  attributes \<^verbatim>\<open>lower_bound\<close>, \<^verbatim>\<open>upper_bound\<close>, \<^verbatim>\<open>bounds_set\<close> and
  \<^verbatim>\<open>insertion_values\<close>.  The first three start as the class attributes \<^verbatim>\<open>[]\<close>,
  \<^verbatim>\<open>[]\<close>, \<^verbatim>\<open>False\<close>, which the code never mutates in place: it rebinds them on the
  instance.  Objects live in a store, a list indexed by reference, so that two
  arguments of a method may be the same object.
\<close>

record permutation =
  entries :: perm
  lower_bound :: "int list"
  upper_bound :: "int list"
  bounds_set :: bool
  insertion_values :: "int list"

type_synonym ref = nat
type_synonym heap = "permutation list"

text \<open>\<^verbatim>\<open>__init__\<close>: \<^verbatim>\<open>self.insertion_values = list(range(len(self)+1))\<close>.\<close>

definition init :: "heap \<Rightarrow> ref \<Rightarrow> heap" where
  "init h self =
     h[self := (h ! self)\<lparr>insertion_values := map int [0 ..< length (entries (h ! self)) + 1]\<rparr>]"

text \<open>
  \<^verbatim>\<open>Permutation(p, clean=True)\<close> on a sequence: \<^verbatim>\<open>__new__\<close> makes a new tuple object,
  then \<^verbatim>\<open>__init__\<close> runs on it.
\<close>

definition Permutation_clean :: "heap \<Rightarrow> perm \<Rightarrow> ref \<times> heap" where
  "Permutation_clean h p =
     (let r = length h;
          h = h @ [\<lparr>entries = p, lower_bound = [], upper_bound = [], bounds_set = False,
                    insertion_values = []\<rparr>]
      in (r, init h r))"

text \<open>
  \<^verbatim>\<open>Permutation(p)\<close> on an object that is a \<^verbatim>\<open>Permutation\<close> already: \<^verbatim>\<open>__new__\<close>
  returns \<open>p\<close> itself, and since the result is an instance of the class, Python then
  calls \<^verbatim>\<open>__init__\<close> on it.
\<close>

definition Permutation_of :: "heap \<Rightarrow> ref \<Rightarrow> ref \<times> heap" where
  "Permutation_of h p = (p, init h p)"

definition involved_in :: "heap \<Rightarrow> ref \<Rightarrow> ref \<Rightarrow> int \<Rightarrow> (error + bool) \<times> heap" where
  "involved_in h self P last_require =
     (case Permutation_of h P of (P, h) \<Rightarrow>
      let h = (if \<not> bounds_set (h ! self)
               then (case set_up_bounds (entries (h ! self)) of (lb, ub) \<Rightarrow>
                       let h = h[self := (h ! self)\<lparr>lower_bound := lb, upper_bound := ub\<rparr>]
                       in h[self := (h ! self)\<lparr>bounds_set := True\<rparr>])
               else h);
          L = entries (h ! self);
          n = int (length L);
          p = int (length (entries (h ! P)))
      in if n \<le> 1 \<and> n \<le> p then (Inr True, h)
         else (involved_in_search (entries (h ! self)) (upper_bound (h ! self))
                 (lower_bound (h ! self)) (entries (h ! P)) last_require, h))"

text \<open>\<^verbatim>\<open>involves\<close>: \<^verbatim>\<open>Permutation(P).involved_in(self,last_require=lr)\<close>.\<close>

definition involves :: "heap \<Rightarrow> ref \<Rightarrow> ref \<Rightarrow> int \<Rightarrow> (error + bool) \<times> heap" where
  "involves h self P lr = (case Permutation_of h P of (P, h) \<Rightarrow> involved_in h P self lr)"

text \<open>
  The generator under \<^verbatim>\<open>all(...)\<close> in \<^verbatim>\<open>avoids\<close>: \<^verbatim>\<open>all\<close> stops at the first
  pattern that is involved.
\<close>

fun avoids_all :: "heap \<Rightarrow> ref \<Rightarrow> int \<Rightarrow> ref list \<Rightarrow> (error + bool) \<times> heap" where
  "avoids_all h self lr [] = (Inr True, h)"
| "avoids_all h self lr (b # rest) =
     (case Permutation_of h b of (b, h) \<Rightarrow>
      case involved_in h b self lr of
        (Inl e, h) \<Rightarrow> (Inl e, h)
      | (Inr found, h) \<Rightarrow> if \<not> found then avoids_all h self lr rest else (Inr False, h))"

definition avoids ::
  "heap \<Rightarrow> ref \<Rightarrow> ref option \<Rightarrow> int \<Rightarrow> ref list option \<Rightarrow> (error + bool) \<times> heap" where
  "avoids h self p lr B =
     (case p of
        Some p \<Rightarrow>
          (case Permutation_of h p of (p, h) \<Rightarrow>
           case involved_in h p self lr of
             (Inl e, h) \<Rightarrow> (Inl e, h)
           | (Inr found, h) \<Rightarrow> (Inr (\<not> found), h))
      | None \<Rightarrow>
          (case B of
             Some B \<Rightarrow> avoids_all h self lr B
           | None \<Rightarrow> (Inr True, h)))"

section \<open>Construction, deletion and substitution decomposition\<close>

subsection \<open>Standardisation\<close>

text \<open>\<^verbatim>\<open>list.index\<close> and \<^verbatim>\<open>tuple.index\<close>: the first position, \<^verbatim>\<open>ValueError\<close> if absent.\<close>

fun py_index :: "'a list \<Rightarrow> 'a \<Rightarrow> error + nat" where
  "py_index [] x = Inl ValueError"
| "py_index (y # ys) x = (if y = x then Inr 0 else bind_err (py_index ys x) (\<lambda>i. Inr (Suc i)))"

text \<open>A comprehension whose element expression may raise.\<close>

fun map_err :: "('a \<Rightarrow> error + 'b) \<Rightarrow> 'a list \<Rightarrow> error + 'b list" where
  "map_err f [] = Inr []"
| "map_err f (x # xs) = bind_err (f x) (\<lambda>y. bind_err (map_err f xs) (\<lambda>ys. Inr (y # ys)))"

text \<open>
  \<^verbatim>\<open>Permutation.standardize\<close>, which is what \<^verbatim>\<open>Permutation(L)\<close> computes for a list
  \<open>L\<close> when \<^verbatim>\<open>clean\<close> is not set.
\<close>

definition standardize :: "int list \<Rightarrow> error + perm" where
  "standardize L =
     (if card (set L) \<noteq> length L then Inl AssertionError
      else let ordered = sort L
           in map_err (\<lambda>x. bind_err (py_index ordered x) (\<lambda>i. Inr (int i))) L)"

subsection \<open>Deletion\<close>

text \<open>
  An argument of \<^verbatim>\<open>delete\<close> is an \<^verbatim>\<open>int\<close> or an iterable of them: \<^verbatim>\<open>list(indices)\<close>
  raises \<^verbatim>\<open>TypeError\<close> on an \<^verbatim>\<open>int\<close>, which selects the \<^verbatim>\<open>except\<close> branch.
\<close>

datatype py_arg = Scalar int | Iterable "int list"

definition delete_entries :: "perm \<Rightarrow> py_arg option \<Rightarrow> py_arg option \<Rightarrow> error + perm" where
  "delete_entries self indices values =
     (case indices of
        Some (Iterable indices) \<Rightarrow>
          standardize (map snd (filter (\<lambda>(idx, val). int idx \<notin> set indices) (enumerate 0 self)))
      | Some (Scalar indices) \<Rightarrow>
          bind_err (py_get self indices) (\<lambda>val.
            Inr (map (\<lambda>old_val. if old_val < val then old_val else old_val - 1)
                   (filter (\<lambda>old_val. old_val \<noteq> val) self)))
      | None \<Rightarrow>
          (case values of
             Some (Iterable values) \<Rightarrow> standardize (filter (\<lambda>val. val \<notin> set values) self)
           | Some (Scalar val) \<Rightarrow>
               Inr (map (\<lambda>old_val. if old_val < val then old_val else old_val - 1)
                      (filter (\<lambda>old_val. old_val \<noteq> val) self))
           | None \<Rightarrow> Inl Exception))"

text \<open>\<^verbatim>\<open>delete\<close> returns a new \<^verbatim>\<open>Permutation\<close> object holding these entries.\<close>

definition delete ::
  "heap \<Rightarrow> ref \<Rightarrow> py_arg option \<Rightarrow> py_arg option \<Rightarrow> (error + ref) \<times> heap" where
  "delete h self indices values =
     (case delete_entries (entries (h ! self)) indices values of
        Inl e \<Rightarrow> (Inl e, h)
      | Inr p \<Rightarrow> (case Permutation_clean h p of (r, h) \<Rightarrow> (Inr r, h)))"

subsection \<open>Intervals\<close>

text \<open>The slice \<^verbatim>\<open>self[j:j+i]\<close> for \<open>0 \<le> j\<close> and \<open>0 \<le> i\<close>.\<close>

definition slice :: "'a list \<Rightarrow> nat \<Rightarrow> nat \<Rightarrow> 'a list" where
  "slice xs j k = take (k - j) (drop j xs)"

text \<open>
  The test \<^verbatim>\<open>max(self[j:j+i]) - min(self[j:j+i]) == i-1\<close>; the slices it is applied
  to are never empty.
\<close>

definition interval_at :: "perm \<Rightarrow> nat \<Rightarrow> nat \<Rightarrow> bool" where
  "interval_at self i j =
     (Max (set (slice self j (j + i))) - Min (set (slice self j (j + i))) = int i - 1)"

fun maximal_interval_inner :: "perm \<Rightarrow> nat \<Rightarrow> nat list \<Rightarrow> (nat \<times> nat) option" where
  "maximal_interval_inner self i [] = None"
| "maximal_interval_inner self i (j # js) =
     (if interval_at self i j then Some (i, j) else maximal_interval_inner self i js)"

fun maximal_interval_outer :: "perm \<Rightarrow> nat list \<Rightarrow> (nat \<times> nat) option" where
  "maximal_interval_outer self [] = None"
| "maximal_interval_outer self (i # is) =
     (case maximal_interval_inner self i [0 ..< length self - i + 1] of
        Some r \<Rightarrow> Some r
      | None \<Rightarrow> maximal_interval_outer self is)"

definition maximal_interval :: "perm \<Rightarrow> nat \<times> nat" where
  "maximal_interval self =
     (case maximal_interval_outer self (rev [2 ..< length self]) of
        Some r \<Rightarrow> r
      | None \<Rightarrow> (0, 0))"

text \<open>
  \<^verbatim>\<open>simple_location\<close>: the inner loop \<^verbatim>\<open>for j in reversed(range(i,len(self)))\<close> updates
  the arrays \<^verbatim>\<open>mins\<close> and \<^verbatim>\<open>maxs\<close> in place and returns from the function early.
\<close>

fun simple_location_inner ::
  "perm \<Rightarrow> nat \<Rightarrow> nat list \<Rightarrow> int list \<times> int list \<Rightarrow> (nat \<times> nat) + (int list \<times> int list)" where
  "simple_location_inner self i [] (mins, maxs) = Inr (mins, maxs)"
| "simple_location_inner self i (j # js) (mins, maxs) =
     (let mins = mins[j := min (mins ! (j - 1)) (self ! j)];
          maxs = maxs[j := max (maxs ! (j - 1)) (self ! j)]
      in if maxs ! j - mins ! j = int i then Inl (i, j)
         else simple_location_inner self i js (mins, maxs))"

fun simple_location_outer :: "perm \<Rightarrow> nat list \<Rightarrow> int list \<times> int list \<Rightarrow> nat \<times> nat" where
  "simple_location_outer self [] s = (0, 0)"
| "simple_location_outer self (i # is) s =
     (case simple_location_inner self i (rev [i ..< length self]) s of
        Inl r \<Rightarrow> r
      | Inr s \<Rightarrow> simple_location_outer self is s)"

definition simple_location :: "perm \<Rightarrow> nat \<times> nat" where
  "simple_location self =
     (let mins = self; maxs = self
      in simple_location_outer self [1 ..< length self - 1] (mins, maxs))"

text \<open>
  Modelled from the spec: \<^verbatim>\<open>is_simple\<close>, which \<^verbatim>\<open>decomposition\<close> calls, is a method of
  \<^verbatim>\<open>PermutationStatsMixin\<close> and is not among the source files.  The specification
  (4.2 and the glossary) says: a sub-range of positions \<open>[start, start+length)\<close> is an
  interval iff \<open>max(values in range) - min(values in range) == length - 1\<close>; the
  trivial intervals are the single positions and the whole permutation; a permutation
  with no nontrivial interval anywhere is termed simple.
\<close>

definition is_simple :: "perm \<Rightarrow> bool" where
  "is_simple p =
     (\<not> (\<exists>len \<in> set [2 ..< length p]. \<exists>start \<in> set [0 ..< length p - len + 1].
           interval_at p len start))"

subsection \<open>Substitution decomposition and inflation\<close>

text \<open>
  The loop \<^verbatim>\<open>while not base.is_simple()\<close> of \<^verbatim>\<open>decomposition\<close>.  The simplicity test
  is a parameter of the loop, so that what is proved about the loop does not depend on
  how \<^verbatim>\<open>is_simple\<close> is written.  The \<^verbatim>\<open>assert\<close> statements raise \<^verbatim>\<open>AssertionError\<close>.
\<close>

lemma maximal_interval_inner_Some:
  "maximal_interval_inner self i js = Some (i', j) \<Longrightarrow> i' = i \<and> j \<in> set js \<and> interval_at self i j"
  by (induction js) (auto split: if_splits)

lemma maximal_interval_outer_Some:
  "maximal_interval_outer self is = Some (i, j) \<Longrightarrow>
     i \<in> set is \<and> j < length self - i + 1 \<and> interval_at self i j"
proof (induction "is")
  case Nil
  then show ?case by simp
next
  case (Cons a "is")
  show ?case
  proof (cases "maximal_interval_inner self a [0 ..< length self - a + 1]")
    case None
    with Cons show ?thesis by auto
  next
    case (Some r)
    with Cons.prems have "maximal_interval_inner self a [0 ..< length self - a + 1] = Some (i, j)"
      by simp
    from maximal_interval_inner_Some [OF this] show ?thesis by auto
  qed
qed

lemma maximal_interval_found:
  assumes "maximal_interval self = (i, j)" and "i \<noteq> 0"
  shows "2 \<le> i \<and> i < length self \<and> i + j \<le> length self \<and> interval_at self i j"
proof -
  from assms have "maximal_interval_outer self (rev [2 ..< length self]) = Some (i, j)"
    by (auto simp: maximal_interval_def split: option.splits)
  from maximal_interval_outer_Some [OF this] show ?thesis by auto
qed

lemma map_err_length: "map_err f xs = Inr ys \<Longrightarrow> length ys = length xs"
  by (induction xs arbitrary: ys) (auto simp: bind_err_def split: sum.splits)

lemma standardize_length: "standardize L = Inr p \<Longrightarrow> length p = length L"
  by (auto simp: standardize_def Let_def map_err_length split: if_splits)

function decomposition_while ::
  "(perm \<Rightarrow> bool) \<Rightarrow> perm \<Rightarrow> perm list \<Rightarrow> error + perm \<times> perm list" where
  "decomposition_while simple_test base components =
     (if \<not> simple_test base then
        (if length base \<noteq> length components then Inl AssertionError
         else case maximal_interval base of (i, j) \<Rightarrow>
           if \<not> i \<noteq> 0 then Inl AssertionError
           else
             let interval = slice base j (i + j) in
             bind_err (py_get base (int j)) (\<lambda>base_j.
             let new_base = slice base 0 j @ [base_j] @ slice base (i + j) (length base) in
             bind_err (standardize interval) (\<lambda>component.
             let new_components =
                   slice components 0 j @ [component] @ slice components (i + j) (length base) in
             bind_err (standardize new_base) (\<lambda>base.
             decomposition_while simple_test base new_components))))
      else Inr (base, components))"
  by pat_completeness auto
termination
proof (relation "measure (\<lambda>(simple_test, base, components). length base)", goal_cases)
  case 1
  show ?case by simp
next
  case prems: 2
  show ?case
    using prems
    by (auto simp: slice_def dest!: maximal_interval_found [OF sym] standardize_length)
qed

text \<open>
  \<^verbatim>\<open>decomposition\<close>, for a given simplicity test.  The initial components are
  \<^verbatim>\<open>Permutation([1])\<close>, the standardisation of \<^verbatim>\<open>[1]\<close>.
\<close>

definition decomposition_with :: "(perm \<Rightarrow> bool) \<Rightarrow> perm \<Rightarrow> error + perm \<times> perm list" where
  "decomposition_with simple_test self =
     (let base = self in
      bind_err (map_err (\<lambda>i. standardize [1]) [0 ..< length base]) (\<lambda>components.
      decomposition_while simple_test base components))"

definition decomposition :: "perm \<Rightarrow> error + perm \<times> perm list" where
  "decomposition self = decomposition_with is_simple self"

text \<open>The loop \<^verbatim>\<open>for value in range(n)\<close> of \<^verbatim>\<open>inflate\<close>.\<close>

fun inflate_loop ::
  "perm \<Rightarrow> perm list \<Rightarrow> int list \<Rightarrow> int list list \<times> int \<Rightarrow> error + int list list \<times> int" where
  "inflate_loop self components [] (inflated, vertical_shift) = Inr (inflated, vertical_shift)"
| "inflate_loop self components (value # rest) (inflated, vertical_shift) =
     bind_err (py_index self value) (\<lambda>index.
     bind_err (py_get components (int index)) (\<lambda>component.
     bind_err (py_set inflated (int index) (map (\<lambda>component_value. component_value + vertical_shift) component))
       (\<lambda>inflated.
     inflate_loop self components rest (inflated, vertical_shift + int (length component)))))"

definition inflate :: "perm \<Rightarrow> perm list \<Rightarrow> error + perm" where
  "inflate self components =
     (let n = length self in
      if n \<noteq> length components then Inl ValueError
      else
        bind_err (inflate_loop self components (map int [0 ..< n]) (replicate n [], 0))
          (\<lambda>(inflated, vertical_shift).
        let inflated_flat = concat inflated
        in standardize inflated_flat))"

section \<open>Sum and skew decomposition round trip\<close>

lemma direct_sum_Nil_left: "direct_sum [] p = p"
  by (simp add: direct_sum_def)

lemma direct_sum_assoc: "direct_sum (direct_sum a b) c = direct_sum a (direct_sum b c)"
  by (simp add: direct_sum_def Let_def add.assoc add.commute)

lemma foldl_direct_sum: "foldl direct_sum a cs = direct_sum a (foldl direct_sum [] cs)"
proof (induction cs arbitrary: a)
  case Nil
  show ?case by (simp add: direct_sum_def)
next
  case (Cons c cs)
  have "foldl direct_sum a (c # cs) = direct_sum (direct_sum a c) (foldl direct_sum [] cs)"
    using Cons.IH [of "direct_sum a c"] by simp
  also have "\<dots> = direct_sum a (direct_sum c (foldl direct_sum [] cs))"
    by (rule direct_sum_assoc)
  also have "direct_sum c (foldl direct_sum [] cs) = foldl direct_sum [] (c # cs)"
    using Cons.IH [of c] by (simp add: direct_sum_Nil_left)
  finally show ?case .
qed

lemma sum_scan_bound: "sum_scan xs i I V = Some idx \<Longrightarrow> idx < i + length xs"
  by (induction xs i I V rule: sum_scan.induct) (auto simp: Let_def split: if_splits)

lemma sum_decomposition_fold: "foldl direct_sum [] (sum_decomposition p) = p"
proof (induction p rule: sum_decomposition.induct)
  case (1 self)
  show ?case
  proof (cases "sum_scan (butlast self) 0 {} {}")
    case None
    then show ?thesis by (simp add: direct_sum_Nil_left)
  next
    case (Some idx)
    let ?rest = "map (\<lambda>val. val - int idx - 1) (drop (idx + 1) self)"
    from Some have ne: "length self \<noteq> 0" by auto
    from sum_scan_bound [OF Some] have len: "idx + 1 \<le> length self" by simp
    have ih: "foldl direct_sum [] (sum_decomposition ?rest) = ?rest"
      using "1.IH" [OF ne Some refl refl] .
    have "foldl direct_sum [] (sum_decomposition self)
          = foldl direct_sum (take (idx + 1) self) (sum_decomposition ?rest)"
      using ne Some by (subst sum_decomposition.simps) (simp add: direct_sum_Nil_left Let_def)
    also have "\<dots> = direct_sum (take (idx + 1) self) ?rest"
      by (subst foldl_direct_sum) (simp only: ih)
    also have "\<dots> = take (idx + 1) self @ drop (idx + 1) self"
      using len by (simp add: direct_sum_def Let_def o_def min_def)
    finally show ?thesis by simp
  qed
qed


lemma skew_sum_Nil_left: "skew_sum [] p = p"
  by (simp add: skew_sum_def)

lemma skew_sum_assoc: "skew_sum (skew_sum a b) c = skew_sum a (skew_sum b c)"
  by (simp add: skew_sum_def Let_def add.assoc add.commute)

lemma foldl_skew_sum: "foldl skew_sum a cs = skew_sum a (foldl skew_sum [] cs)"
proof (induction cs arbitrary: a)
  case Nil
  show ?case by (simp add: skew_sum_def)
next
  case (Cons c cs)
  have "foldl skew_sum a (c # cs) = skew_sum (skew_sum a c) (foldl skew_sum [] cs)"
    using Cons.IH [of "skew_sum a c"] by simp
  also have "\<dots> = skew_sum a (skew_sum c (foldl skew_sum [] cs))"
    by (rule skew_sum_assoc)
  also have "skew_sum c (foldl skew_sum [] cs) = foldl skew_sum [] (c # cs)"
    using Cons.IH [of c] by (simp add: skew_sum_Nil_left)
  finally show ?case .
qed

lemma skew_scan_bound: "skew_scan n xs i I V = Some idx \<Longrightarrow> idx < i + length xs"
  by (induction n xs i I V rule: skew_scan.induct) (auto simp: Let_def split: if_splits)

lemma skew_decomposition_fold: "foldl skew_sum [] (skew_decomposition p) = p"
proof (induction p rule: skew_decomposition.induct)
  case (1 self)
  let ?n = "int (length self)"
  show ?case
  proof (cases "self = []")
    case True
    then show ?thesis by simp
  next
    case ne: False
    show ?thesis
    proof (cases "skew_scan ?n (butlast self) 0 {} {}")
      case None
      with ne show ?thesis by (simp add: skew_sum_Nil_left)
    next
      case (Some idx)
      let ?comp = "map (\<lambda>value. value - (?n - int idx) + 1) (take (idx + 1) self)"
      let ?rest = "drop (idx + 1) self"
      from skew_scan_bound [OF Some] ne have len: "idx + 1 \<le> length self"
        by (cases self rule: rev_cases) auto
      have ih: "foldl skew_sum [] (skew_decomposition ?rest) = ?rest"
        using "1.IH" [OF ne refl Some refl refl] .
      have "foldl skew_sum [] (skew_decomposition self)
            = foldl skew_sum ?comp (skew_decomposition ?rest)"
        using ne Some by (subst skew_decomposition.simps) (simp add: skew_sum_Nil_left Let_def)
      also have "\<dots> = skew_sum ?comp ?rest"
        by (subst foldl_skew_sum) (simp only: ih)
      also have "\<dots> = take (idx + 1) self @ drop (idx + 1) self"
      proof -
        have "int (length self - Suc idx) = ?n - int idx - 1"
          using len by simp
        then show ?thesis
          by (simp add: skew_sum_def Let_def o_def)
      qed
      finally show ?thesis by simp
    qed
  qed
qed

text \<open>
  Claim C3.  For every permutation \<open>P\<close>, folding the direct sum over
  \<open>sum_decomposition P\<close> in order (starting from the empty permutation) gives back
  \<open>P\<close>, folding the skew sum over \<open>skew_decomposition P\<close> gives back \<open>P\<close>, and the
  empty permutation decomposes to the empty list both ways.
\<close>

theorem sum_skew_decomposition_round_trip:
  "foldl direct_sum [] (sum_decomposition P) = P
   \<and> foldl skew_sum [] (skew_decomposition P) = P
   \<and> sum_decomposition [] = [] \<and> skew_decomposition [] = []"
  using sum_decomposition_fold [of P] skew_decomposition_fold [of P] by simp

theorem sum_skew_decomposition_round_trip_witness:
  "foldl direct_sum [] (sum_decomposition [0, 3, 1, 2, 5, 4]) = [0, 3, 1, 2, 5, 4]
   \<and> foldl skew_sum [] (skew_decomposition [0, 3, 1, 2, 5, 4]) = [0, 3, 1, 2, 5, 4]
   \<and> sum_decomposition [] = [] \<and> skew_decomposition [] = []"
  by (rule sum_skew_decomposition_round_trip)

section \<open>Degenerate cases of containment and avoidance\<close>

lemma nth_update_cases:
  "(h[r := x]) ! s = (if s = r \<and> r < length h then x else h ! s)"
  by (cases "r < length h") (auto simp: nth_list_update list_update_beyond)

lemma entries_init [simp]: "entries (init h r ! s) = entries (h ! s)"
  by (simp add: init_def nth_update_cases)

lemma length_init [simp]: "length (init h r) = length h"
  by (simp add: init_def)

lemma lower_bound_init [simp]: "lower_bound (init h r ! s) = lower_bound (h ! s)"
  by (simp add: init_def nth_update_cases)

lemma upper_bound_init [simp]: "upper_bound (init h r ! s) = upper_bound (h ! s)"
  by (simp add: init_def nth_update_cases)

lemma bounds_set_init [simp]: "bounds_set (init h r ! s) = bounds_set (h ! s)"
  by (simp add: init_def nth_update_cases)

text \<open>The store after the cache test at the head of \<^verbatim>\<open>involved_in\<close>.\<close>

definition with_bounds :: "heap \<Rightarrow> ref \<Rightarrow> heap" where
  "with_bounds h self =
     (if \<not> bounds_set (h ! self)
      then (case set_up_bounds (entries (h ! self)) of (lb, ub) \<Rightarrow>
              let h = h[self := (h ! self)\<lparr>lower_bound := lb, upper_bound := ub\<rparr>]
              in h[self := (h ! self)\<lparr>bounds_set := True\<rparr>])
      else h)"

lemma involved_in_unfold:
  "involved_in h self P last_require =
     (let h2 = with_bounds (init h P) self in
      if int (length (entries (h2 ! self))) \<le> 1
         \<and> int (length (entries (h2 ! self))) \<le> int (length (entries (h2 ! P)))
      then (Inr True, h2)
      else (involved_in_search (entries (h2 ! self)) (upper_bound (h2 ! self))
              (lower_bound (h2 ! self)) (entries (h2 ! P)) last_require, h2))"
  by (simp only: involved_in_def Permutation_of_def with_bounds_def Let_def prod.case)

lemma entries_with_bounds [simp]: "entries (with_bounds h r ! s) = entries (h ! s)"
  by (cases "set_up_bounds (entries (h ! r))")
     (simp add: with_bounds_def Let_def nth_update_cases)

lemma length_with_bounds [simp]: "length (with_bounds h r) = length h"
  by (cases "set_up_bounds (entries (h ! r))") (simp add: with_bounds_def Let_def)

text \<open>
  Claim C8.  If the pattern has at most one entry and is no longer than the target,
  \<^verbatim>\<open>involved_in\<close> returns \<^verbatim>\<open>True\<close>, whatever \<^verbatim>\<open>last_require\<close> is: the empty pattern
  and every one-point pattern are contained in every target at least as long.
\<close>

theorem degenerate_containment:
  assumes "self < length h" and "P < length h"
    and "length (entries (h ! self)) \<le> 1"
    and "length (entries (h ! self)) \<le> length (entries (h ! P))"
  shows "fst (involved_in h self P last_require) = Inr True"
  using assms(3,4) by (simp add: involved_in_unfold Let_def)

theorem degenerate_containment_witness:
  "fst (involved_in
     [\<lparr>entries = [0], lower_bound = [], upper_bound = [], bounds_set = False,
        insertion_values = [0, 1]\<rparr>,
      \<lparr>entries = [1, 0], lower_bound = [], upper_bound = [], bounds_set = False,
        insertion_values = [0, 1, 2]\<rparr>] 0 1 0) = Inr True
   \<and> fst (involved_in
     [\<lparr>entries = [], lower_bound = [], upper_bound = [], bounds_set = False,
        insertion_values = [0]\<rparr>] 0 0 5) = Inr True"
  using degenerate_containment
          [of 0 "[\<lparr>entries = [0], lower_bound = [], upper_bound = [], bounds_set = False,
                    insertion_values = [0, 1]\<rparr>,
                  \<lparr>entries = [1, 0], lower_bound = [], upper_bound = [], bounds_set = False,
                    insertion_values = [0, 1, 2]\<rparr>]" 1 0]
        degenerate_containment
          [of 0 "[\<lparr>entries = [], lower_bound = [], upper_bound = [], bounds_set = False,
                    insertion_values = [0]\<rparr>]" 0 5]
  by simp

text \<open>
  Claim C10.  \<^verbatim>\<open>avoids\<close> called with neither a pattern \<open>p\<close> nor a collection \<open>B\<close>
  (both \<^verbatim>\<open>None\<close>) returns \<^verbatim>\<open>True\<close> and raises nothing; it leaves the store as it was.
\<close>

theorem avoids_nothing: "avoids h self None lr None = (Inr True, h)"
  by (simp add: avoids_def)

theorem avoids_nothing_witness:
  "avoids [\<lparr>entries = [1, 0], lower_bound = [], upper_bound = [], bounds_set = False,
             insertion_values = [0, 1, 2]\<rparr>] 0 None 0 None
   = (Inr True, [\<lparr>entries = [1, 0], lower_bound = [], upper_bound = [], bounds_set = False,
                    insertion_values = [0, 1, 2]\<rparr>])"
  by (rule avoids_nothing)

section \<open>The bound arrays of the containment search\<close>

text \<open>What the two arrays are meant to hold at position \<open>i\<close>.\<close>

definition lower_bound_spec :: "perm \<Rightarrow> nat \<Rightarrow> nat \<Rightarrow> int \<Rightarrow> bool" where
  "lower_bound_spec L i m b =
     (if \<exists>j. i < j \<and> j < m \<and> L ! j < L ! i
      then \<exists>j. b = int j \<and> i < j \<and> j < m \<and> L ! j < L ! i
               \<and> (\<forall>j'. i < j' \<and> j' < m \<and> L ! j' < L ! i \<longrightarrow> L ! j' \<le> L ! j)
      else b = -1)"

definition upper_bound_spec :: "perm \<Rightarrow> nat \<Rightarrow> nat \<Rightarrow> int \<Rightarrow> bool" where
  "upper_bound_spec L i m b =
     (if \<exists>j. i < j \<and> j < m \<and> L ! i < L ! j
      then \<exists>j. b = int j \<and> i < j \<and> j < m \<and> L ! i < L ! j
               \<and> (\<forall>j'. i < j' \<and> j' < m \<and> L ! i < L ! j' \<longrightarrow> L ! j \<le> L ! j')
      else b = -1)"

lemma is_perm_nth:
  assumes "is_perm L" and "i < length L"
  shows "0 \<le> L ! i" and "L ! i < int (length L)"
  using assms by (auto simp: is_perm_def list_all_length)

lemma is_perm_nth_eq:
  assumes "is_perm L" and "i < length L" and "j < length L"
  shows "L ! i = L ! j \<longleftrightarrow> i = j"
  using assms by (auto simp: is_perm_def nth_eq_iff_index_eq)

lemma lower_bound_spec_skip:
  "lower_bound_spec L i j b \<Longrightarrow> \<not> L ! j < L ! i \<Longrightarrow> lower_bound_spec L i (Suc j) b"
  unfolding lower_bound_spec_def less_Suc_eq by (auto split: if_splits)

lemma lower_bound_spec_keep:
  "lower_bound_spec L i j b \<Longrightarrow> b \<noteq> -1 \<Longrightarrow> L ! j \<le> L ! nat b \<Longrightarrow>
     lower_bound_spec L i (Suc j) b"
  unfolding lower_bound_spec_def less_Suc_eq by (auto split: if_splits)

lemma lower_bound_spec_new:
  "lower_bound_spec L i j b \<Longrightarrow> i < j \<Longrightarrow> L ! j < L ! i \<Longrightarrow>
     b = -1 \<or> L ! nat b < L ! j \<Longrightarrow> lower_bound_spec L i (Suc j) (int j)"
  unfolding lower_bound_spec_def less_Suc_eq by (fastforce split: if_splits)

lemma upper_bound_spec_skip:
  "upper_bound_spec L i j b \<Longrightarrow> \<not> L ! i < L ! j \<Longrightarrow> upper_bound_spec L i (Suc j) b"
  unfolding upper_bound_spec_def less_Suc_eq by (auto split: if_splits)

lemma upper_bound_spec_keep:
  "upper_bound_spec L i j b \<Longrightarrow> b \<noteq> -1 \<Longrightarrow> L ! nat b \<le> L ! j \<Longrightarrow>
     upper_bound_spec L i (Suc j) b"
  unfolding upper_bound_spec_def less_Suc_eq by (auto split: if_splits)

lemma upper_bound_spec_new:
  "upper_bound_spec L i j b \<Longrightarrow> i < j \<Longrightarrow> L ! i < L ! j \<Longrightarrow>
     b = -1 \<or> L ! j < L ! nat b \<Longrightarrow> upper_bound_spec L i (Suc j) (int j)"
  unfolding upper_bound_spec_def less_Suc_eq by (fastforce split: if_splits)

lemma set_up_bounds_inner_inv:
  assumes p: "is_perm L" and i: "i < length L" and j: "i < j" "j \<le> length L"
    and l: "length lb0 = length L" "length ub0 = length L"
    and init: "lb0 ! i = -1" "ub0 ! i = -1"
  shows "\<exists>mn mx lb ub.
           fold (set_up_bounds_inner L i) [i + 1 ..< j] (-1, -1, lb0, ub0) = (mn, mx, lb, ub)
           \<and> length lb = length L \<and> length ub = length L
           \<and> (\<forall>k. k \<noteq> i \<longrightarrow> lb ! k = lb0 ! k \<and> ub ! k = ub0 ! k)
           \<and> lower_bound_spec L i j (lb ! i) \<and> upper_bound_spec L i j (ub ! i)
           \<and> (if lb ! i = -1 then mx = -1 else mx = L ! nat (lb ! i))
           \<and> (if ub ! i = -1 then mn = -1 else mn = L ! nat (ub ! i) \<and> 0 \<le> mn)"
  using j
proof (induction j)
  case 0
  then show ?case by simp
next
  case (Suc j)
  show ?case
  proof (cases "i < j")
    case False
    with Suc.prems have "j = i" by simp
    then show ?thesis using l init by (simp add: lower_bound_spec_def upper_bound_spec_def)
  next
    case True
    with Suc have jl: "j < length L" by simp
    from Suc.IH [OF True] jl obtain mn mx lb ub where
      f: "fold (set_up_bounds_inner L i) [i + 1 ..< j] (-1, -1, lb0, ub0) = (mn, mx, lb, ub)"
      and ll: "length lb = length L" "length ub = length L"
      and fr: "\<forall>k. k \<noteq> i \<longrightarrow> lb ! k = lb0 ! k \<and> ub ! k = ub0 ! k"
      and lo: "lower_bound_spec L i j (lb ! i)" and up: "upper_bound_spec L i j (ub ! i)"
      and mx: "if lb ! i = -1 then mx = -1 else mx = L ! nat (lb ! i)"
      and mn: "if ub ! i = -1 then mn = -1 else mn = L ! nat (ub ! i) \<and> 0 \<le> mn"
      by auto
    have step: "fold (set_up_bounds_inner L i) [i + 1 ..< Suc j] (-1, -1, lb0, ub0)
                = set_up_bounds_inner L i j (mn, mx, lb, ub)"
      using True f by simp
    have nn: "0 \<le> L ! j" using is_perm_nth(1) [OF p jl] .
    have ne: "L ! j \<noteq> L ! i" using is_perm_nth_eq [OF p jl i] True by simp
    show ?thesis
    proof (cases "L ! j < L ! i")
      case below: True
      then have up': "upper_bound_spec L i (Suc j) (ub ! i)"
        using upper_bound_spec_skip [OF up] by simp
      show ?thesis
      proof (cases "L ! j > mx")
        case True
        have st: "set_up_bounds_inner L i j (mn, mx, lb, ub) = (mn, L ! j, lb[i := int j], ub)"
          using below True by (simp add: set_up_bounds_inner_def)
        from mx True have "lb ! i = -1 \<or> L ! nat (lb ! i) < L ! j" by (auto split: if_splits)
        from lower_bound_spec_new [OF lo \<open>i < j\<close> below this]
        have "lower_bound_spec L i (Suc j) (int j)" .
        with st step ll fr up' mn i show ?thesis by (auto simp: nth_list_update)
      next
        case False
        have st: "set_up_bounds_inner L i j (mn, mx, lb, ub) = (mn, mx, lb, ub)"
          using below False by (simp add: set_up_bounds_inner_def)
        from False nn have "mx \<noteq> -1" by auto
        with mx have mx': "lb ! i \<noteq> -1" "mx = L ! nat (lb ! i)" by (auto split: if_splits)
        from lower_bound_spec_keep [OF lo mx'(1)] mx'(2) False
        have "lower_bound_spec L i (Suc j) (lb ! i)" by simp
        with st step ll fr up' mn mx show ?thesis by auto
      qed
    next
      case notbelow: False
      with ne have above: "L ! i < L ! j" by simp
      have lo': "lower_bound_spec L i (Suc j) (lb ! i)"
        using lower_bound_spec_skip [OF lo notbelow] .
      show ?thesis
      proof (cases "L ! j < mn \<or> mn = -1")
        case True
        have st: "set_up_bounds_inner L i j (mn, mx, lb, ub) = (L ! j, mx, lb, ub[i := int j])"
          using notbelow True by (simp add: set_up_bounds_inner_def)
        from mn True have "ub ! i = -1 \<or> L ! j < L ! nat (ub ! i)" by (auto split: if_splits)
        from upper_bound_spec_new [OF up \<open>i < j\<close> above this]
        have "upper_bound_spec L i (Suc j) (int j)" .
        with st step ll fr lo' mx i nn show ?thesis by (auto simp: nth_list_update)
      next
        case False
        have st: "set_up_bounds_inner L i j (mn, mx, lb, ub) = (mn, mx, lb, ub)"
          using notbelow False by (simp add: set_up_bounds_inner_def)
        from False mn have mn': "ub ! i \<noteq> -1" "mn = L ! nat (ub ! i)" by (auto split: if_splits)
        from upper_bound_spec_keep [OF up mn'(1)] mn'(2) False
        have "upper_bound_spec L i (Suc j) (ub ! i)" by simp
        with st step ll fr lo' mn mx show ?thesis by auto
      qed
    qed
  qed
qed

lemma set_up_bounds_outer_inv:
  assumes p: "is_perm L" and m: "m \<le> length L"
  shows "\<exists>lb ub.
           fold (set_up_bounds_outer L) [0 ..< m]
             (replicate (length L) (-1), replicate (length L) (-1)) = (lb, ub)
           \<and> length lb = length L \<and> length ub = length L
           \<and> (\<forall>i < m. lower_bound_spec L i (length L) (lb ! i)
                      \<and> upper_bound_spec L i (length L) (ub ! i))
           \<and> (\<forall>i. m \<le> i \<and> i < length L \<longrightarrow> lb ! i = -1 \<and> ub ! i = -1)"
  using m
proof (induction m)
  case 0
  then show ?case by simp
next
  case (Suc m)
  then have ml: "m < length L" by simp
  from Suc.IH ml obtain lb ub where
    f: "fold (set_up_bounds_outer L) [0 ..< m]
          (replicate (length L) (-1), replicate (length L) (-1)) = (lb, ub)"
    and ll: "length lb = length L" "length ub = length L"
    and fin: "\<forall>i < m. lower_bound_spec L i (length L) (lb ! i)
                     \<and> upper_bound_spec L i (length L) (ub ! i)"
    and rest: "\<forall>i. m \<le> i \<and> i < length L \<longrightarrow> lb ! i = -1 \<and> ub ! i = -1"
    by auto
  from rest ml have init: "lb ! m = -1" "ub ! m = -1" by auto
  from set_up_bounds_inner_inv [OF p ml ml le_refl ll init]
  obtain mn mx lb' ub' where
    g: "fold (set_up_bounds_inner L m) [m + 1 ..< length L] (-1, -1, lb, ub) = (mn, mx, lb', ub')"
    and ll': "length lb' = length L" "length ub' = length L"
    and fr: "\<forall>k. k \<noteq> m \<longrightarrow> lb' ! k = lb ! k \<and> ub' ! k = ub ! k"
    and sp: "lower_bound_spec L m (length L) (lb' ! m)" "upper_bound_spec L m (length L) (ub' ! m)"
    by auto
  have "fold (set_up_bounds_outer L) [0 ..< Suc m]
          (replicate (length L) (-1), replicate (length L) (-1)) = (lb', ub')"
    using f g by (simp add: set_up_bounds_outer_def)
  moreover have "\<forall>i < Suc m. lower_bound_spec L i (length L) (lb' ! i)
                     \<and> upper_bound_spec L i (length L) (ub' ! i)"
    using fin fr sp by (auto simp: less_Suc_eq)
  moreover have "\<forall>i. Suc m \<le> i \<and> i < length L \<longrightarrow> lb' ! i = -1 \<and> ub' ! i = -1"
    using rest fr by auto
  ultimately show ?case using ll' by blast
qed

lemma set_up_bounds_correct:
  assumes "is_perm L" and "set_up_bounds L = (lb, ub)"
  shows "length lb = length L" and "length ub = length L"
    and "i < length L \<Longrightarrow> lower_bound_spec L i (length L) (lb ! i)"
    and "i < length L \<Longrightarrow> upper_bound_spec L i (length L) (ub ! i)"
  using set_up_bounds_outer_inv [OF assms(1) le_refl] assms(2)
  by (auto simp: set_up_bounds_def Let_def)

text \<open>
  Claim C5.  For a permutation and a position \<open>i\<close>, \<^verbatim>\<open>set_up_bounds\<close> returns arrays
  (as long as the permutation) such that \<open>lower_bound[i]\<close> is the position \<open>j > i\<close> that
  holds the largest value smaller than \<open>entries[i]\<close> among the positions after \<open>i\<close>, or
  \<open>-1\<close> if no later value is smaller; and \<open>upper_bound[i]\<close> is the position \<open>j > i\<close>
  that holds the smallest value greater than \<open>entries[i]\<close> among the positions after
  \<open>i\<close>, or \<open>-1\<close> if there is none.
\<close>

theorem set_up_bounds_meaning:
  assumes "is_perm L" and "i < length L" and "set_up_bounds L = (lb, ub)"
  shows "length lb = length L \<and> length ub = length L
    \<and> (if \<exists>j. i < j \<and> j < length L \<and> L ! j < L ! i
        then \<exists>j. lb ! i = int j \<and> i < j \<and> j < length L \<and> L ! j < L ! i
                 \<and> (\<forall>j'. i < j' \<and> j' < length L \<and> L ! j' < L ! i \<longrightarrow> L ! j' \<le> L ! j)
        else lb ! i = -1)
    \<and> (if \<exists>j. i < j \<and> j < length L \<and> L ! i < L ! j
        then \<exists>j. ub ! i = int j \<and> i < j \<and> j < length L \<and> L ! i < L ! j
                 \<and> (\<forall>j'. i < j' \<and> j' < length L \<and> L ! i < L ! j' \<longrightarrow> L ! j \<le> L ! j')
        else ub ! i = -1)"
  using set_up_bounds_correct [OF assms(1,3)] assms(2)
  unfolding lower_bound_spec_def upper_bound_spec_def by simp

theorem set_up_bounds_meaning_witness:
  "is_perm [2, 0, 4, 3, 1] \<and> (0::nat) < length [2, 0, 4, 3, 1 :: int]
   \<and> set_up_bounds [2, 0, 4, 3, 1] = ([4, -1, 3, 4, -1], [3, 4, -1, -1, -1])
   \<and> length [4, -1, 3, 4, -1 :: int] = length [2, 0, 4, 3, 1 :: int]
   \<and> length [3, 4, -1, -1, -1 :: int] = length [2, 0, 4, 3, 1 :: int]
   \<and> (if \<exists>j. 0 < j \<and> j < length [2, 0, 4, 3, 1 :: int]
            \<and> [2, 0, 4, 3, 1 :: int] ! j < [2, 0, 4, 3, 1] ! 0
       then \<exists>j. [4, -1, 3, 4, -1] ! 0 = int j \<and> 0 < j \<and> j < length [2, 0, 4, 3, 1 :: int]
                \<and> [2, 0, 4, 3, 1 :: int] ! j < [2, 0, 4, 3, 1] ! 0
                \<and> (\<forall>j'. 0 < j' \<and> j' < length [2, 0, 4, 3, 1 :: int]
                        \<and> [2, 0, 4, 3, 1 :: int] ! j' < [2, 0, 4, 3, 1] ! 0
                      \<longrightarrow> [2, 0, 4, 3, 1 :: int] ! j' \<le> [2, 0, 4, 3, 1] ! j)
       else [4, -1, 3, 4, -1 :: int] ! 0 = -1)
   \<and> (if \<exists>j. 0 < j \<and> j < length [2, 0, 4, 3, 1 :: int]
            \<and> [2, 0, 4, 3, 1 :: int] ! 0 < [2, 0, 4, 3, 1] ! j
       then \<exists>j. [3, 4, -1, -1, -1] ! 0 = int j \<and> 0 < j \<and> j < length [2, 0, 4, 3, 1 :: int]
                \<and> [2, 0, 4, 3, 1 :: int] ! 0 < [2, 0, 4, 3, 1] ! j
                \<and> (\<forall>j'. 0 < j' \<and> j' < length [2, 0, 4, 3, 1 :: int]
                        \<and> [2, 0, 4, 3, 1 :: int] ! 0 < [2, 0, 4, 3, 1] ! j'
                      \<longrightarrow> [2, 0, 4, 3, 1 :: int] ! j \<le> [2, 0, 4, 3, 1] ! j')
       else [3, 4, -1, -1, -1 :: int] ! 0 = -1)"
proof -
  have p: "is_perm [2, 0, 4, 3, 1]" by (simp add: is_perm_def)
  have l: "(0::nat) < length [2, 0, 4, 3, 1 :: int]" by simp
  have b: "set_up_bounds [2, 0, 4, 3, 1] = ([4, -1, 3, 4, -1], [3, 4, -1, -1, -1])"
    by code_simp
  show ?thesis
    by (rule conjI [OF p conjI [OF l conjI [OF b set_up_bounds_meaning [OF p l b]]]])
qed

section \<open>Correctness of the containment search\<close>

text \<open>
  The search fills \<^verbatim>\<open>indices\<close> from the last pattern position to the first.
  \<open>partial_match A B ind k\<close> says that the slots \<open>k, k+1, \<dots>\<close> of \<open>ind\<close> are positions
  of \<open>B\<close>, increasing, at which \<open>B\<close> is ordered as \<open>A\<close> is at \<open>k, k+1, \<dots>\<close>.
\<close>

definition partial_match :: "perm \<Rightarrow> perm \<Rightarrow> int list \<Rightarrow> nat \<Rightarrow> bool" where
  "partial_match A B ind k =
     ((\<forall>a. k \<le> a \<and> a < length A \<longrightarrow> 0 \<le> ind ! a \<and> ind ! a < int (length B))
      \<and> (\<forall>a. k \<le> a \<and> Suc a < length A \<longrightarrow> ind ! a < ind ! Suc a)
      \<and> (\<forall>a b. k \<le> a \<and> a < length A \<and> k \<le> b \<and> b < length A \<longrightarrow>
             (A ! a < A ! b) = (B ! nat (ind ! a) < B ! nat (ind ! b))))"

definition fits_cond :: "perm \<Rightarrow> perm \<Rightarrow> int list \<Rightarrow> nat \<Rightarrow> bool" where
  "fits_cond A B ind k =
     (\<forall>b. k < b \<and> b < length A \<longrightarrow>
        (A ! k < A ! b) = (B ! nat (ind ! k) < B ! nat (ind ! b))
        \<and> (A ! b < A ! k) = (B ! nat (ind ! b) < B ! nat (ind ! k)))"

lemma partial_match_cong:
  assumes "\<And>a. k \<le> a \<Longrightarrow> a < length A \<Longrightarrow> ind' ! a = ind ! a"
  shows "partial_match A B ind' k = partial_match A B ind k"
  using assms unfolding partial_match_def by (auto simp: Suc_lessD)

lemma partial_match_mono:
  "partial_match A B ind k \<Longrightarrow> k \<le> k' \<Longrightarrow> partial_match A B ind k'"
  unfolding partial_match_def by auto

lemma partial_match_Suc:
  assumes "k < length A"
  shows "partial_match A B ind k \<longleftrightarrow>
           partial_match A B ind (Suc k) \<and> 0 \<le> ind ! k \<and> ind ! k < int (length B)
           \<and> (Suc k < length A \<longrightarrow> ind ! k < ind ! Suc k) \<and> fits_cond A B ind k"
    (is "?L \<longleftrightarrow> ?R")
proof
  assume ?L
  then show ?R using assms unfolding partial_match_def fits_cond_def by auto
next
  assume r: ?R
  have le: "\<And>a. k \<le> a \<longleftrightarrow> a = k \<or> Suc k \<le> a" by auto
  from r assms show ?L unfolding partial_match_def fits_cond_def le
    by (auto simp: Suc_le_eq)
qed

lemma involvement_fits_value:
  assumes len: "length lb = length A" "length ub = length A" "length ind = length A"
    and k: "k < length A"
    and t: "0 \<le> ind ! k" "ind ! k < int (length B)"
    and lo: "lb ! k = -1 \<or> (\<exists>j. lb ! k = int j \<and> k < j \<and> j < length A)"
    and hi: "ub ! k = -1 \<or> (\<exists>j. ub ! k = int j \<and> k < j \<and> j < length A)"
    and rng: "\<And>a. k < a \<Longrightarrow> a < length A \<Longrightarrow> 0 \<le> ind ! a \<and> ind ! a < int (length B)"
  shows "involvement_fits ub lb ind B (int k) =
           Inr ((lb ! k = -1 \<or> B ! nat (ind ! nat (lb ! k)) < B ! nat (ind ! k))
                \<and> (ub ! k = -1 \<or> B ! nat (ind ! k) < B ! nat (ind ! nat (ub ! k))))"
proof -
  have gl: "py_get lb (int k) = Inr (lb ! k)" and gu: "py_get ub (int k) = Inr (ub ! k)"
    and gi: "py_get ind (int k) = Inr (ind ! k)"
    using len k by (simp_all add: py_get_in_range)
  have gb: "py_get B (ind ! k) = Inr (B ! nat (ind ! k))"
    using t by (simp add: py_get_in_range)
  have glo: "py_get ind (lb ! k) = Inr (ind ! nat (lb ! k))
             \<and> py_get B (ind ! nat (lb ! k)) = Inr (B ! nat (ind ! nat (lb ! k)))"
    if "lb ! k \<noteq> -1"
  proof -
    from that lo obtain j where j: "lb ! k = int j" "k < j" "j < length A" by auto
    from rng [OF j(2,3)] len j show ?thesis by (simp add: py_get_in_range)
  qed
  have ghi: "py_get ind (ub ! k) = Inr (ind ! nat (ub ! k))
             \<and> py_get B (ind ! nat (ub ! k)) = Inr (B ! nat (ind ! nat (ub ! k)))"
    if "ub ! k \<noteq> -1"
  proof -
    from that hi obtain j where j: "ub ! k = int j" "k < j" "j < length A" by auto
    from rng [OF j(2,3)] len j show ?thesis by (simp add: py_get_in_range)
  qed
  show ?thesis
    by (cases "lb ! k = -1"; cases "ub ! k = -1")
       (simp_all add: involvement_fits_def bind_err_def gl gu gi gb glo ghi)
qed

lemma fits_cond_meaning:
  assumes p: "is_perm A" and k: "k < length A"
    and pm: "partial_match A B ind (Suc k)"
    and lo: "lower_bound_spec A k (length A) l"
    and hi: "upper_bound_spec A k (length A) u"
  shows "fits_cond A B ind k \<longleftrightarrow>
           (l = -1 \<or> B ! nat (ind ! nat l) < B ! nat (ind ! k))
           \<and> (u = -1 \<or> B ! nat (ind ! k) < B ! nat (ind ! nat u))"
proof -
  let ?t = "B ! nat (ind ! k)"
  let ?v = "\<lambda>b. B ! nat (ind ! b)"
  have ne: "\<And>b. k < b \<Longrightarrow> b < length A \<Longrightarrow> A ! b < A ! k \<or> A ! k < A ! b"
    using is_perm_nth_eq [OF p _ k] by (metis less_irrefl linorder_neqE_linordered_idom)
  have ord: "\<And>a b. k < a \<Longrightarrow> a < length A \<Longrightarrow> k < b \<Longrightarrow> b < length A \<Longrightarrow>
                (A ! a < A ! b) = (?v a < ?v b)"
    using pm unfolding partial_match_def by (simp add: Suc_le_eq)
  have lo_iff: "(l = -1 \<or> ?v (nat l) < ?t) \<longleftrightarrow> (\<forall>b. k < b \<and> b < length A \<and> A ! b < A ! k \<longrightarrow> ?v b < ?t)"
  proof (cases "\<exists>j. k < j \<and> j < length A \<and> A ! j < A ! k")
    case False
    with lo show ?thesis unfolding lower_bound_spec_def by auto
  next
    case True
    with lo obtain j where j: "l = int j" "k < j" "j < length A" "A ! j < A ! k"
      and mx: "\<And>j'. k < j' \<Longrightarrow> j' < length A \<Longrightarrow> A ! j' < A ! k \<Longrightarrow> A ! j' \<le> A ! j"
      unfolding lower_bound_spec_def by auto
    have "?v b < ?t" if "?v j < ?t" "k < b" "b < length A" "A ! b < A ! k" for b
    proof -
      from mx that have "\<not> A ! j < A ! b" by force
      with ord [OF j(2,3) that(2,3)] have "?v b \<le> ?v j" by simp
      with that(1) show ?thesis by simp
    qed
    with j show ?thesis by auto
  qed
  have hi_iff: "(u = -1 \<or> ?t < ?v (nat u)) \<longleftrightarrow> (\<forall>b. k < b \<and> b < length A \<and> A ! k < A ! b \<longrightarrow> ?t < ?v b)"
  proof (cases "\<exists>j. k < j \<and> j < length A \<and> A ! k < A ! j")
    case False
    with hi show ?thesis unfolding upper_bound_spec_def by auto
  next
    case True
    with hi obtain j where j: "u = int j" "k < j" "j < length A" "A ! k < A ! j"
      and mn: "\<And>j'. k < j' \<Longrightarrow> j' < length A \<Longrightarrow> A ! k < A ! j' \<Longrightarrow> A ! j \<le> A ! j'"
      unfolding upper_bound_spec_def by auto
    have "?t < ?v b" if "?t < ?v j" "k < b" "b < length A" "A ! k < A ! b" for b
    proof -
      from mn that have "\<not> A ! b < A ! j" by force
      with ord [OF that(2,3) j(2,3)] have "?v j \<le> ?v b" by simp
      with that(1) show ?thesis by simp
    qed
    with j show ?thesis by auto
  qed
  have "fits_cond A B ind k \<longleftrightarrow>
          (\<forall>b. k < b \<and> b < length A \<and> A ! b < A ! k \<longrightarrow> ?v b < ?t)
          \<and> (\<forall>b. k < b \<and> b < length A \<and> A ! k < A ! b \<longrightarrow> ?t < ?v b)"
    unfolding fits_cond_def using ne by (smt (verit, best))
  with lo_iff hi_iff show ?thesis by simp
qed

lemma involvement_fits_correct:
  assumes p: "is_perm A" and bnd: "set_up_bounds A = (lb, ub)"
    and len: "length ind = length A" and k: "k < length A"
    and pm: "partial_match A B ind (Suc k)"
    and t: "0 \<le> ind ! k" "ind ! k < int (length B)"
  shows "involvement_fits ub lb ind B (int k) = Inr (fits_cond A B ind k)"
proof -
  note c = set_up_bounds_correct [OF p bnd]
  have lo: "lb ! k = -1 \<or> (\<exists>j. lb ! k = int j \<and> k < j \<and> j < length A)"
    using c(3) [OF k] unfolding lower_bound_spec_def by (auto split: if_splits)
  have hi: "ub ! k = -1 \<or> (\<exists>j. ub ! k = int j \<and> k < j \<and> j < length A)"
    using c(4) [OF k] unfolding upper_bound_spec_def by (auto split: if_splits)
  have rng: "\<And>a. k < a \<Longrightarrow> a < length A \<Longrightarrow> 0 \<le> ind ! a \<and> ind ! a < int (length B)"
    using pm unfolding partial_match_def by (simp add: Suc_le_eq)
  show ?thesis
    using involvement_fits_value [OF c(1) c(2) len k t lo hi rng]
      fits_cond_meaning [OF p k pm c(3) [OF k] c(4) [OF k]] by simp
qed

definition completes :: "perm \<Rightarrow> perm \<Rightarrow> int list \<Rightarrow> nat \<Rightarrow> int list \<Rightarrow> bool" where
  "completes A B ind k c =
     (length c = length A \<and> (\<forall>a. k \<le> a \<and> a < length A \<longrightarrow> c ! a = ind ! a)
      \<and> partial_match A B c 0)"

lemma completes_cong:
  assumes "\<And>a. k \<le> a \<Longrightarrow> a < length A \<Longrightarrow> ind' ! a = ind ! a"
  shows "completes A B ind' k c = completes A B ind k c"
  using assms unfolding completes_def by auto

lemma completes_partial_match:
  assumes "completes A B ind k c"
  shows "partial_match A B ind k"
proof -
  from assms have "partial_match A B c k"
    unfolding completes_def using partial_match_mono by blast
  moreover from assms have "\<And>a. k \<le> a \<Longrightarrow> a < length A \<Longrightarrow> ind ! a = c ! a"
    unfolding completes_def by simp
  ultimately show ?thesis using partial_match_cong [of k A ind c B] by simp
qed

lemma completes_slot:
  assumes "completes A B ind (Suc k) c" and "Suc k < length A"
  shows "0 \<le> c ! k \<and> c ! k < ind ! Suc k"
  using assms unfolding completes_def partial_match_def by (metis le0 le_refl Suc_lessD)

lemma completes_Suc:
  assumes "k < length A"
  shows "completes A B ind k c \<longleftrightarrow> completes A B ind (Suc k) c \<and> c ! k = ind ! k"
proof -
  have le: "\<And>a. k \<le> a \<longleftrightarrow> a = k \<or> Suc k \<le> a" by auto
  show ?thesis using assms unfolding completes_def le by auto
qed

lemma ex_le_pred:
  fixes t :: int
  assumes "\<And>c. P c \<Longrightarrow> f c \<noteq> t"
  shows "(\<exists>c. P c \<and> f c \<le> t - 1) = (\<exists>c. P c \<and> f c \<le> t)"
proof -
  have "f c \<le> t - 1" if "P c" "f c \<le> t" for c
    using assms [OF that(1)] that(2) by simp
  then show ?thesis by fastforce
qed

lemma involvement_check_correct:
  assumes p: "is_perm A" and bnd: "set_up_bounds A = (lb, ub)"
  shows "ub1 = ub \<Longrightarrow> lb1 = lb \<Longrightarrow> q1 = B \<Longrightarrow> length ind1 = length A \<Longrightarrow> -1 \<le> m1
           \<Longrightarrow> m1 + 1 < int (length A) \<Longrightarrow> partial_match A B ind1 (nat (m1 + 1))
           \<Longrightarrow> \<exists>r. involvement_check ub1 lb1 ind1 q1 m1
                    = Inr ((\<exists>c. completes A B ind1 (nat (m1 + 1)) c), r)"
    and "ub2 = ub \<Longrightarrow> lb2 = lb \<Longrightarrow> q2 = B \<Longrightarrow> length ind2 = length A \<Longrightarrow> 0 \<le> m2
           \<Longrightarrow> m2 + 1 < int (length A) \<Longrightarrow> partial_match A B ind2 (nat (m2 + 1))
           \<Longrightarrow> -1 \<le> ind2 ! nat m2 \<Longrightarrow> ind2 ! nat m2 < ind2 ! nat (m2 + 1)
           \<Longrightarrow> \<exists>r. involvement_check_while ub2 lb2 ind2 q2 m2
                    = Inr ((\<exists>c. completes A B ind2 (nat (m2 + 1)) c \<and> c ! nat m2 \<le> ind2 ! nat m2), r)"
proof (induction ub1 lb1 ind1 q1 m1 and ub2 lb2 ind2 q2 m2
       rule: involvement_check_involvement_check_while.induct)
  case (1 ub1 lb1 ind q m)
  note prems = "1.prems"
  show ?case
  proof (cases "m < 0")
    case True
    with prems have m: "m = -1" by simp
    from prems m have "completes A B ind 0 ind" by (simp add: completes_def)
    then have "\<exists>c. completes A B ind 0 c" by blast
    with m show ?thesis by (subst involvement_check.simps) simp
  next
    case False
    define k where "k = nat m"
    from False have mk: "m = int k" by (simp add: k_def)
    from prems mk have Sk: "Suc k < length A" by simp
    from prems mk have pm: "partial_match A B ind (Suc k)" by (simp add: nat_add_distrib)
    from pm Sk have v: "0 \<le> ind ! Suc k" "ind ! Suc k < int (length B)"
      unfolding partial_match_def by auto
    have g: "py_get ind (m + 1) = Inr (ind ! Suc k)"
      using Sk prems(4) mk by (simp add: py_get_in_range nat_add_distrib)
    let ?ind1 = "ind[k := ind ! Suc k - 1]"
    have s: "py_set ind m (ind ! Suc k - 1) = Inr ?ind1"
      using Sk prems(4) mk by (simp add: py_set_in_range)
    have same: "\<And>a. Suc k \<le> a \<Longrightarrow> a < length A \<Longrightarrow> ?ind1 ! a = ind ! a" by simp
    have pm1: "partial_match A B ?ind1 (nat (m + 1))"
      using pm partial_match_cong [OF same, of "Suc k" A B] mk by (simp add: nat_add_distrib)
    have slot: "?ind1 ! nat m = ind ! Suc k - 1" "?ind1 ! nat (m + 1) = ind ! Suc k"
      using Sk prems(4) mk by (simp_all add: nat_add_distrib)
    have "\<exists>r. involvement_check_while ub1 lb1 ?ind1 q m
            = Inr ((\<exists>c. completes A B ?ind1 (nat (m + 1)) c \<and> c ! nat m \<le> ?ind1 ! nat m), r)"
      using "1.IH" [OF False g s prems(1,2,3) _ _ prems(6) pm1] prems(4) False v slot by simp
    then obtain r where w: "involvement_check_while ub1 lb1 ?ind1 q m
            = Inr ((\<exists>c. completes A B ?ind1 (Suc k) c \<and> c ! k \<le> ind ! Suc k - 1), r)"
      using slot mk by (auto simp: nat_add_distrib)
    have "(\<exists>c. completes A B ?ind1 (Suc k) c \<and> c ! k \<le> ind ! Suc k - 1)
            = (\<exists>c. completes A B ind (Suc k) c)"
      using completes_cong [OF same, of "Suc k" A B] completes_slot [OF _ Sk, of B ind]
      by auto
    with w have "involvement_check_while ub1 lb1 ?ind1 q m
            = Inr ((\<exists>c. completes A B ind (nat (m + 1)) c), r)"
      using mk by (simp add: nat_add_distrib)
    with False g s show ?thesis
      by (subst involvement_check.simps) (simp add: bind_err_def)
  qed
next
  case (2 ub2 lb2 ind q m)
  note prems = "2.prems"
  define k where "k = nat m"
  from prems have mk: "m = int k" by (simp add: k_def)
  from prems mk have Sk: "Suc k < length A" by simp
  then have kl: "k < length A" by simp
  from prems mk have pm: "partial_match A B ind (Suc k)" by (simp add: nat_add_distrib)
  define t where "t = ind ! k"
  from prems mk have t1: "-1 \<le> t" and t2: "t < ind ! Suc k"
    by (simp_all add: t_def nat_add_distrib)
  from pm Sk have v: "ind ! Suc k < int (length B)" unfolding partial_match_def by auto
  have g: "py_get ind m = Inr t"
    using kl prems(4) mk by (simp add: py_get_in_range t_def)
  show ?case
  proof (cases "0 \<le> t")
    case False
    have "\<not> (\<exists>c. completes A B ind (Suc k) c \<and> c ! k \<le> t)"
      using completes_slot [OF _ Sk, of B ind] False by force
    with False g mk show ?thesis
      by (subst involvement_check_while.simps) (simp add: bind_err_def nat_add_distrib t_def)
  next
    case t0: True
    have f: "involvement_fits ub2 lb2 ind q m = Inr (fits_cond A B ind k)"
      using involvement_fits_correct [OF p bnd prems(4) kl pm] t0 t2 v prems(1,2,3) mk
      by (simp add: t_def)
    have pmk: "partial_match A B ind k \<longleftrightarrow> fits_cond A B ind k"
      using partial_match_Suc [OF kl, of B ind] pm t0 t2 v Sk by (simp add: t_def)
    define found where "found = (\<exists>c. completes A B ind k c)"
    have "\<exists>r1. (if fits_cond A B ind k then involvement_check ub2 lb2 ind q (m - 1)
                 else Inr (False, ind)) = Inr (found, r1)
               \<and> length r1 = length ind \<and> (\<forall>a. k \<le> a \<longrightarrow> r1 ! a = ind ! a)"
    proof (cases "fits_cond A B ind k")
      case False
      with pmk have "\<not> found" unfolding found_def using completes_partial_match by blast
      with False show ?thesis by simp
    next
      case True
      with pmk have pk: "partial_match A B ind (nat (m - 1 + 1))" using mk by simp
      from "2.IH"(1) [OF g t0 f True prems(1,2,3,4) _ _ pk] prems(5,6)
      obtain r1 where c: "involvement_check ub2 lb2 ind q (m - 1) = Inr (found, r1)"
        unfolding found_def using mk by auto
      from involvement_check_frame [OF c] mk
      have "length r1 = length ind \<and> (\<forall>a. k \<le> a \<longrightarrow> r1 ! a = ind ! a)" by auto
      with True c show ?thesis by simp
    qed
    then obtain r1 where
      c: "(if fits_cond A B ind k then involvement_check ub2 lb2 ind q (m - 1)
           else Inr (False, ind)) = Inr (found, r1)"
      and l1: "length r1 = length ind" and fr: "\<And>a. k \<le> a \<Longrightarrow> r1 ! a = ind ! a"
      by blast
    show ?thesis
    proof (cases found)
      case True
      then obtain c' where "completes A B ind k c'" unfolding found_def by blast
      with completes_Suc [OF kl, of B ind c']
      have "\<exists>c. completes A B ind (Suc k) c \<and> c ! k \<le> t" unfolding t_def by auto
      with True g t0 f c mk show ?thesis
        by (subst involvement_check_while.simps)
           (simp add: bind_err_def nat_add_distrib t_def)
    next
      case nf: False
      let ?ind3 = "r1[k := t - 1]"
      have g': "py_get r1 m = Inr t"
        using kl prems(4) mk l1 fr [of k] by (simp add: py_get_in_range t_def)
      have s': "py_set r1 m (t - 1) = Inr ?ind3"
        using kl prems(4) mk l1 by (simp add: py_set_in_range)
      have same: "\<And>a. Suc k \<le> a \<Longrightarrow> a < length A \<Longrightarrow> ?ind3 ! a = ind ! a"
        using fr by simp
      have pm3: "partial_match A B ?ind3 (nat (m + 1))"
        using pm partial_match_cong [OF same, of "Suc k" A B] mk by (simp add: nat_add_distrib)
      have slot: "?ind3 ! nat m = t - 1" "?ind3 ! nat (m + 1) = ind ! Suc k"
        using kl prems(4) mk l1 fr [of "Suc k"] by (simp_all add: nat_add_distrib)
      have l3: "length ?ind3 = length A" using l1 prems(4) by simp
      have "\<exists>r. involvement_check_while ub2 lb2 ?ind3 q m
              = Inr ((\<exists>c. completes A B ?ind3 (nat (m + 1)) c \<and> c ! nat m \<le> ?ind3 ! nat m), r)"
        using "2.IH"(2) [OF g t0 f c refl nf g' s' prems(1,2,3) l3 prems(5,6) pm3] slot t0 t2
        by simp
      then obtain r where w: "involvement_check_while ub2 lb2 ?ind3 q m
              = Inr ((\<exists>c. completes A B ?ind3 (Suc k) c \<and> c ! k \<le> t - 1), r)"
        using slot mk by (auto simp: nat_add_distrib)
      have no: "\<not> (completes A B ind (Suc k) c' \<and> c' ! k = t)" for c'
        using nf completes_Suc [OF kl, of B ind c'] unfolding found_def t_def by blast
      have "(\<exists>c. completes A B ?ind3 (Suc k) c \<and> c ! k \<le> t - 1)
              = (\<exists>c. completes A B ind (Suc k) c \<and> c ! k \<le> t)"
      proof -
        have cc: "\<And>c. completes A B ?ind3 (Suc k) c = completes A B ind (Suc k) c"
          by (rule completes_cong) (use same in auto)
        show ?thesis unfolding cc by (rule ex_le_pred) (use no in blast)
      qed
      with w have "involvement_check_while ub2 lb2 ?ind3 q m
              = Inr ((\<exists>c. completes A B ind (nat (m + 1)) c \<and> c ! nat m \<le> ind ! nat m), r)"
        using mk by (simp add: nat_add_distrib t_def)
      with nf g t0 f c g' s' show ?thesis
        by (subst involvement_check_while.simps) (simp add: bind_err_def)
    qed
  qed
qed

definition embeds :: "perm \<Rightarrow> perm \<Rightarrow> bool" where
  "embeds A B = (\<exists>c. length c = length A \<and> partial_match A B c 0)"

lemma involved_in_while_correct:
  assumes p: "is_perm A" and bnd: "set_up_bounds A = (lb, ub)"
  shows "self = A \<Longrightarrow> ub1 = ub \<Longrightarrow> lb1 = lb \<Longrightarrow> q = B \<Longrightarrow> 1 \<le> length A
           \<Longrightarrow> length ind = length A \<Longrightarrow> -1 \<le> ind ! (length A - 1)
           \<Longrightarrow> ind ! (length A - 1) < int (length B)
           \<Longrightarrow> involved_in_while self ub1 lb1 ind q
                 = Inr (\<exists>c. length c = length A \<and> partial_match A B c 0
                           \<and> c ! (length A - 1) \<le> ind ! (length A - 1))"
proof (induction self ub1 lb1 ind q rule: involved_in_while.induct)
  case (1 self ub1 lb1 ind q)
  note prems = "1.prems"
  define k where "k = length A - 1"
  from prems have kl: "k < length A" and Sk: "Suc k = length A" by (simp_all add: k_def)
  define t where "t = ind ! k"
  from prems have t1: "-1 \<le> t" and t2: "t < int (length B)" by (simp_all add: t_def k_def)
  have ik: "int (length self) - 1 = int k" using prems(1) Sk by simp
  have g: "py_get ind (int (length self) - 1) = Inr t"
    unfolding ik using kl prems(6) by (simp add: py_get_in_range t_def)
  show ?case
  proof (cases "0 \<le> t")
    case False
    have "\<not> (\<exists>c. length c = length A \<and> partial_match A B c 0 \<and> c ! k \<le> t)"
      using False kl unfolding partial_match_def by force
    with False g show ?thesis
      by (subst involved_in_while.simps) (simp add: bind_err_def k_def t_def)
  next
    case t0: True
    have nk: "nat (int (length self) - 2 + 1) = k" using Sk prems(1) by simp
    have "partial_match A B ind (Suc k)" and "fits_cond A B ind k"
      unfolding partial_match_def fits_cond_def Sk [symmetric] by auto
    with partial_match_Suc [OF kl, of B ind] t0 t2 Sk have "partial_match A B ind k"
      by (simp add: t_def)
    then have pm: "partial_match A B ind (nat (int (length self) - 2 + 1))"
      by (simp only: nk)
    define found where "found = (\<exists>c. completes A B ind k c)"
    from involvement_check_correct(1) [OF p bnd prems(2,3,4,6) _ _ pm] prems(1,5)
    obtain r1 where c: "involvement_check ub1 lb1 ind q (int (length self) - 2) = Inr (found, r1)"
      unfolding found_def nk by auto
    show ?thesis
    proof (cases found)
      case True
      then have "\<exists>c. length c = length A \<and> partial_match A B c 0 \<and> c ! k \<le> t"
        unfolding found_def completes_def t_def using kl by auto
      with True g t0 c show ?thesis
        by (subst involved_in_while.simps) (simp add: bind_err_def k_def t_def)
    next
      case nf: False
      from involvement_check_frame [OF c] prems(1) Sk
      have l1: "length r1 = length ind" and fr: "r1 ! k = ind ! k" by auto
      let ?ind3 = "r1[k := t - 1]"
      have g': "py_get r1 (int (length self) - 1) = Inr t"
        unfolding ik using kl prems(6) l1 fr by (simp add: py_get_in_range t_def)
      have s': "py_set r1 (int (length self) - 1) (t - 1) = Inr ?ind3"
        unfolding ik using kl prems(6) l1 by (simp add: py_set_in_range)
      have slot: "?ind3 ! (length A - 1) = t - 1"
        using kl prems(6) l1 by (simp add: k_def)
      have l3: "length ?ind3 = length A" using l1 prems(6) by simp
      have w: "involved_in_while self ub1 lb1 ?ind3 q
                = Inr (\<exists>c. length c = length A \<and> partial_match A B c 0 \<and> c ! k \<le> t - 1)"
        using "1.IH" [OF g t0 c refl nf g' s' prems(1,2,3,4,5) l3] slot t0 t2
        by (simp add: k_def)
      have no: "c' ! k \<noteq> t" if h: "length c' = length A \<and> partial_match A B c' 0" for c'
      proof
        assume e: "c' ! k = t"
        have "c' ! a = ind ! a" if "k \<le> a \<and> a < length A" for a
        proof -
          from that Sk have "a = k" by simp
          with e show ?thesis by (simp add: t_def)
        qed
        with h have "completes A B ind k c'" unfolding completes_def by blast
        with nf show False unfolding found_def by blast
      qed
      have "(\<exists>c. (length c = length A \<and> partial_match A B c 0) \<and> c ! k \<le> t - 1)
              = (\<exists>c. (length c = length A \<and> partial_match A B c 0) \<and> c ! k \<le> t)"
        by (rule ex_le_pred) (use no in blast)
      with w nf g t0 c g' s' show ?thesis
        by (subst involved_in_while.simps) (simp add: bind_err_def k_def t_def)
    qed
  qed
qed

lemma involved_in_search_correct:
  assumes p: "is_perm A" and bnd: "set_up_bounds A = (lb, ub)" and n: "1 \<le> length A"
  shows "involved_in_search A ub lb B 0 = Inr (embeds A B)"
proof -
  let ?ind = "(replicate (length A) (0::int))[length A - 1 := int (length B) - 1]"
  have s: "py_set (replicate (length A) (0::int)) (int (length A) - 1) (int (length B) - 1)
             = Inr ?ind"
  proof -
    have "py_set (replicate (length A) (0::int)) (int (length A) - 1) (int (length B) - 1)
            = Inr ((replicate (length A) (0::int))[nat (int (length A) - 1) := int (length B) - 1])"
      by (rule py_set_in_range) (use n in \<open>auto simp: Suc_le_eq\<close>)
    moreover have "nat (int (length A) - 1) = length A - 1" by simp
    ultimately show ?thesis by simp
  qed
  have slot: "?ind ! (length A - 1) = int (length B) - 1" using n by simp
  have "involved_in_while A ub lb ?ind B
          = Inr (\<exists>c. length c = length A \<and> partial_match A B c 0
                    \<and> c ! (length A - 1) \<le> ?ind ! (length A - 1))"
  proof -
    have l: "length ?ind = length A" by simp
    have a: "-1 \<le> ?ind ! (length A - 1)" unfolding slot by simp
    have b: "?ind ! (length A - 1) < int (length B)" unfolding slot by simp
    show ?thesis
      by (rule involved_in_while_correct [OF p bnd refl refl refl refl n l a b])
  qed
  moreover have "(\<exists>c. length c = length A \<and> partial_match A B c 0
                    \<and> c ! (length A - 1) \<le> ?ind ! (length A - 1)) = embeds A B"
  proof -
    have "c ! (length A - 1) \<le> int (length B) - 1" if "partial_match A B c 0" for c
    proof -
      from that have "\<forall>a. 0 \<le> a \<and> a < length A \<longrightarrow> 0 \<le> c ! a \<and> c ! a < int (length B)"
        unfolding partial_match_def by (rule conjunct1)
      moreover from n have "length A - 1 < length A" by simp
      ultimately have "c ! (length A - 1) < int (length B)" by simp
      then show ?thesis by simp
    qed
    then have "(\<exists>c. length c = length A \<and> partial_match A B c 0
                    \<and> c ! (length A - 1) \<le> int (length B) - 1)
               = (\<exists>c. length c = length A \<and> partial_match A B c 0)"
      by blast
    then show ?thesis unfolding embeds_def slot .
  qed
  moreover have "involved_in_search A ub lb B 0 = involved_in_while A ub lb ?ind B"
  proof -
    have "involved_in_search A ub lb B 0 =
            bind_err (py_set (replicate (length A) 0) (int (length A) - 1) (int (length B) - 1))
              (\<lambda>indices. involved_in_while A ub lb indices B)"
      by (simp only: involved_in_search_def Let_def refl if_True)
    also have "\<dots> = involved_in_while A ub lb ?ind B"
      by (simp only: s bind_err_def sum.case)
    finally show ?thesis .
  qed
  ultimately show ?thesis by (simp only:)
qed

definition order_isomorphic :: "int list \<Rightarrow> int list \<Rightarrow> bool" where
  "order_isomorphic xs ys =
     (length xs = length ys
      \<and> list_all (\<lambda>a. list_all (\<lambda>b. (xs ! a < xs ! b) = (ys ! a < ys ! b)) [0 ..< length xs])
           [0 ..< length xs])"

definition occurrence :: "perm \<Rightarrow> perm \<Rightarrow> nat list \<Rightarrow> bool" where
  "occurrence A B pos =
     (sorted_wrt (<) pos \<and> list_all (\<lambda>i. i < length B) pos
      \<and> order_isomorphic A (map ((!) B) pos))"

definition contains_pattern :: "perm \<Rightarrow> perm \<Rightarrow> bool" where
  "contains_pattern A B = (\<exists>pos. occurrence A B pos)"

definition brute_force_contains :: "perm \<Rightarrow> perm \<Rightarrow> bool" where
  "brute_force_contains A B =
     list_ex (\<lambda>pos. length pos = length A \<and> order_isomorphic A (map ((!) B) pos))
       (subseqs [0 ..< length B])"

lemma order_isomorphic_iff:
  "order_isomorphic xs ys \<longleftrightarrow>
     length xs = length ys
     \<and> (\<forall>a b. a < length xs \<and> b < length xs \<longrightarrow> (xs ! a < xs ! b) = (ys ! a < ys ! b))"
  by (auto simp: order_isomorphic_def list_all_iff)

lemma subseq_sorted_wrt:
  "subseq xs ys \<Longrightarrow> sorted_wrt P ys \<Longrightarrow> sorted_wrt P xs"
proof (induction rule: list_emb.induct)
  case (list_emb_Nil ys)
  show ?case by simp
next
  case (list_emb_Cons xs ys y)
  then show ?case by simp
next
  case (list_emb_Cons2 x y xs ys)
  from list_emb_Cons2.hyps(2) have "set xs \<subseteq> set ys"
    by (metis subseq_conv_nths set_nths_subset)
  with list_emb_Cons2 show ?case by auto
qed

lemma subseq_upt_iff:
  "subseq pos [0 ..< n] \<longleftrightarrow> sorted_wrt (<) pos \<and> list_all (\<lambda>i. i < n) pos"
proof
  assume s: "subseq pos [0 ..< n]"
  from subseq_sorted_wrt [OF s] have "sorted_wrt (<) pos" by simp
  moreover from s have "set pos \<subseteq> set [0 ..< n]"
    by (metis subseq_conv_nths set_nths_subset)
  ultimately show "sorted_wrt (<) pos \<and> list_all (\<lambda>i. i < n) pos"
    by (auto simp: list_all_iff)
next
  assume a: "sorted_wrt (<) pos \<and> list_all (\<lambda>i. i < n) pos"
  then have "set pos \<subseteq> set [0 ..< n]" by (auto simp: list_all_iff)
  moreover have "sorted_wrt (\<le>) [0 ..< n]" using sorted_upt [of 0 n] by simp
  ultimately show "subseq pos [0 ..< n]"
    using a sorted_subset_imp_subseq by blast
qed

lemma contains_pattern_brute_force: "contains_pattern A B = brute_force_contains A B"
  unfolding contains_pattern_def brute_force_contains_def occurrence_def list_ex_iff
  by (auto simp: subseq_upt_iff order_isomorphic_def)

lemma embeds_iff_contains: "embeds A B = contains_pattern A B"
proof
  assume "embeds A B"
  then obtain c where len: "length c = length A" and pm: "partial_match A B c 0"
    unfolding embeds_def by blast
  let ?pos = "map nat c"
  from pm have rng: "\<And>a. a < length A \<Longrightarrow> 0 \<le> c ! a \<and> c ! a < int (length B)"
    and adj: "\<And>a. Suc a < length A \<Longrightarrow> c ! a < c ! Suc a"
    and ord: "\<And>a b. a < length A \<Longrightarrow> b < length A \<Longrightarrow>
                (A ! a < A ! b) = (B ! nat (c ! a) < B ! nat (c ! b))"
    unfolding partial_match_def by auto
  have "sorted_wrt (<) ?pos"
  proof (subst sorted_wrt_iff_nth_Suc_transp)
    show "transp ((<) :: nat \<Rightarrow> nat \<Rightarrow> bool)" by (auto intro: transpI)
    show "\<forall>i. Suc i < length ?pos \<longrightarrow> ?pos ! i < ?pos ! Suc i"
    proof (intro allI impI)
      fix i assume "Suc i < length ?pos"
      then have i: "Suc i < length A" "i < length A" using len by simp_all
      from adj [OF i(1)] rng [OF i(2)] have "nat (c ! i) < nat (c ! Suc i)"
        by (simp add: zless_nat_conj)
      with i len show "?pos ! i < ?pos ! Suc i" by simp
    qed
  qed
  moreover have "list_all (\<lambda>i. i < length B) ?pos"
    unfolding list_all_length
  proof (intro allI impI)
    fix n assume "n < length ?pos"
    then have "n < length A" using len by simp
    from rng [OF this] have "nat (c ! n) < length B" by (simp add: nat_less_iff)
    with \<open>n < length ?pos\<close> show "?pos ! n < length B" by simp
  qed
  moreover have "order_isomorphic A (map ((!) B) ?pos)"
    unfolding order_isomorphic_iff using ord len by simp
  ultimately show "contains_pattern A B"
    unfolding contains_pattern_def occurrence_def by blast
next
  assume "contains_pattern A B"
  then obtain pos where s: "sorted_wrt (<) pos" and r: "list_all (\<lambda>i. i < length B) pos"
    and o: "order_isomorphic A (map ((!) B) pos)"
    unfolding contains_pattern_def occurrence_def by blast
  from o have len: "length pos = length A" by (simp add: order_isomorphic_iff)
  have "partial_match A B (map int pos) 0"
    unfolding partial_match_def
  proof (intro conjI allI impI)
    fix a assume "0 \<le> a \<and> a < length A"
    with r len show "0 \<le> map int pos ! a" "map int pos ! a < int (length B)"
      by (auto simp: list_all_length)
  next
    fix a assume "0 \<le> a \<and> Suc a < length A"
    with s len show "map int pos ! a < map int pos ! Suc a"
      by (simp add: sorted_wrt_iff_nth_less)
  next
    fix a b assume "0 \<le> a \<and> a < length A \<and> 0 \<le> b \<and> b < length A"
    with o len show "(A ! a < A ! b) = (B ! nat (map int pos ! a) < B ! nat (map int pos ! b))"
      by (simp add: order_isomorphic_iff)
  qed
  with len show "embeds A B" unfolding embeds_def by (intro exI [of _ "map int pos"]) simp
qed

lemma contains_pattern_degenerate:
  assumes "length A \<le> 1" and "length A \<le> length B"
  shows "contains_pattern A B"
proof (cases A)
  case Nil
  then have "occurrence A B []" by (simp add: occurrence_def order_isomorphic_def)
  then show ?thesis unfolding contains_pattern_def by blast
next
  case (Cons x xs)
  with assms have xs: "xs = []" and B: "0 < length B" by auto
  with Cons have "occurrence A B [0]" by (simp add: occurrence_def order_isomorphic_def)
  then show ?thesis unfolding contains_pattern_def by blast
qed

text \<open>
  The bound cache of an object is sound: once \<^verbatim>\<open>bounds_set\<close> holds, the two arrays are
  those of the object's own entries.  A new object satisfies this, and
  \<^verbatim>\<open>involved_in\<close>, the only writer of the three attributes, preserves it.
\<close>

definition cache_ok :: "permutation \<Rightarrow> bool" where
  "cache_ok x = (if bounds_set x then (lower_bound x, upper_bound x) = set_up_bounds (entries x) else True)"

lemma with_bounds_self:
  assumes "a < length h" and "cache_ok (h ! a)"
  shows "(lower_bound (with_bounds h a ! a), upper_bound (with_bounds h a ! a))
           = set_up_bounds (entries (h ! a))"
  using assms
  by (cases "set_up_bounds (entries (h ! a))")
     (auto simp: with_bounds_def cache_ok_def Let_def)

lemma involved_in_result:
  assumes a: "a < length h" and ok: "cache_ok (h ! a)" and p: "is_perm (entries (h ! a))"
  shows "fst (involved_in h a b 0) = Inr (contains_pattern (entries (h ! a)) (entries (h ! b)))"
proof -
  let ?A = "entries (h ! a)" and ?B = "entries (h ! b)"
  let ?h2 = "with_bounds (init h b) a"
  obtain lb ub where bnd: "set_up_bounds ?A = (lb, ub)" by (cases "set_up_bounds ?A")
  have ok': "cache_ok (init h b ! a)" using ok by (simp add: cache_ok_def)
  from a have a': "a < length (init h b)" by simp
  from with_bounds_self [OF a' ok'] bnd
  have c: "lower_bound (?h2 ! a) = lb" "upper_bound (?h2 ! a) = ub" by simp_all
  show ?thesis
  proof (cases "length ?A \<le> 1 \<and> length ?A \<le> length ?B")
    case True
    then have "contains_pattern ?A ?B" using contains_pattern_degenerate by blast
    with True show ?thesis by (simp add: involved_in_unfold Let_def)
  next
    case False
    then have n: "1 \<le> length ?A" by auto
    from False have f: "\<not> (int (length (entries (?h2 ! a))) \<le> 1
                  \<and> int (length (entries (?h2 ! a))) \<le> int (length (entries (?h2 ! b))))"
      by simp
    have "involved_in h a b 0 =
            (involved_in_search (entries (?h2 ! a)) (upper_bound (?h2 ! a))
               (lower_bound (?h2 ! a)) (entries (?h2 ! b)) 0, ?h2)"
      unfolding involved_in_unfold Let_def using f by (simp only: if_False)
    with involved_in_search_correct [OF p bnd n, of ?B] c show ?thesis
      by (simp add: embeds_iff_contains)
  qed
qed

text \<open>
  Claim C1.  For permutations \<open>A\<close> and \<open>B\<close> (as objects \<open>a\<close> and \<open>b\<close> of a store in which
  the bound cache of \<open>a\<close> is sound), \<^verbatim>\<open>A.involved_in(B)\<close> with \<^verbatim>\<open>last_require = 0\<close> and
  \<^verbatim>\<open>B.involves(A)\<close> return \<^verbatim>\<open>True\<close>, and \<^verbatim>\<open>B.avoids(A)\<close> returns \<^verbatim>\<open>False\<close>, if and only
  if there is a strictly increasing sequence of \<open>len(A)\<close> positions of \<open>B\<close> whose values,
  read in position order, are order-isomorphic to \<open>A\<close>; and that is what the brute-force
  enumeration of all index subsets of \<open>B\<close> of size \<open>len(A)\<close> decides.  None of the three
  calls raises.  The proof uses neither \<open>len(A) \<le> len(B)\<close> nor that \<open>B\<close> is a
  permutation, so the theorem holds without them.
\<close>

theorem containment_correct:
  assumes "a < length h" and "b < length h"
    and "cache_ok (h ! a)" and "is_perm (entries (h ! a))"
  shows "fst (involved_in h a b 0) = Inr (contains_pattern (entries (h ! a)) (entries (h ! b)))
    \<and> fst (involves h b a 0) = Inr (contains_pattern (entries (h ! a)) (entries (h ! b)))
    \<and> fst (avoids h b (Some a) 0 None)
        = Inr (\<not> contains_pattern (entries (h ! a)) (entries (h ! b)))
    \<and> contains_pattern (entries (h ! a)) (entries (h ! b))
        = brute_force_contains (entries (h ! a)) (entries (h ! b))"
proof -
  let ?h1 = "init h a"
  have ok1: "cache_ok (?h1 ! a)" using assms(3) by (simp add: cache_ok_def)
  have a1: "a < length ?h1" using assms(1) by simp
  have p1: "is_perm (entries (?h1 ! a))" using assms(4) by simp
  have r1: "fst (involved_in ?h1 a b 0)
              = Inr (contains_pattern (entries (h ! a)) (entries (h ! b)))"
    using involved_in_result [OF a1 ok1 p1, of b] by simp
  have "fst (involves h b a 0) = fst (involved_in ?h1 a b 0)"
    by (simp add: involves_def Permutation_of_def)
  moreover have "fst (avoids h b (Some a) 0 None)
                   = Inr (\<not> contains_pattern (entries (h ! a)) (entries (h ! b)))"
    using r1 by (cases "involved_in ?h1 a b 0") (auto simp: avoids_def Permutation_of_def)
  ultimately show ?thesis
    using involved_in_result [OF assms(1,3,4), of b] r1
      contains_pattern_brute_force [of "entries (h ! a)" "entries (h ! b)"]
    by simp
qed

theorem containment_correct_witness:
  "(0::nat) < length
       [\<lparr>entries = [1, 0, 2], lower_bound = [], upper_bound = [], bounds_set = False,
          insertion_values = [0, 1, 2, 3]\<rparr>,
        \<lparr>entries = [4, 3, 1, 0, 2], lower_bound = [], upper_bound = [], bounds_set = False,
          insertion_values = [0, 1, 2, 3, 4, 5]\<rparr>]
   \<and> cache_ok \<lparr>entries = [1, 0, 2], lower_bound = [], upper_bound = [], bounds_set = False,
          insertion_values = [0, 1, 2, 3]\<rparr>
   \<and> is_perm [1, 0, 2]
   \<and> fst (involved_in
       [\<lparr>entries = [1, 0, 2], lower_bound = [], upper_bound = [], bounds_set = False,
          insertion_values = [0, 1, 2, 3]\<rparr>,
        \<lparr>entries = [4, 3, 1, 0, 2], lower_bound = [], upper_bound = [], bounds_set = False,
          insertion_values = [0, 1, 2, 3, 4, 5]\<rparr>] 0 1 0) = Inr True
   \<and> fst (avoids
       [\<lparr>entries = [1, 0, 2], lower_bound = [], upper_bound = [], bounds_set = False,
          insertion_values = [0, 1, 2, 3]\<rparr>,
        \<lparr>entries = [4, 3, 1, 0, 2], lower_bound = [], upper_bound = [], bounds_set = False,
          insertion_values = [0, 1, 2, 3, 4, 5]\<rparr>] 1 (Some 0) 0 None) = Inr False"
proof -
  let ?h = "[\<lparr>entries = [1, 0, 2], lower_bound = [], upper_bound = [], bounds_set = False,
          insertion_values = [0, 1, 2, 3]\<rparr>,
        \<lparr>entries = [4, 3, 1, 0, 2], lower_bound = [], upper_bound = [], bounds_set = False,
          insertion_values = [0, 1, 2, 3, 4, 5]\<rparr>]"
  have l: "(0::nat) < length ?h" "(1::nat) < length ?h" by simp_all
  have c: "cache_ok (?h ! 0)" by (simp add: cache_ok_def)
  have p: "is_perm (entries (?h ! 0))" by (simp add: is_perm_def)
  have b: "brute_force_contains [1, 0, 2] [4, 3, 1, 0, 2]" by code_simp
  from containment_correct [OF l c p] b l c p show ?thesis by simp
qed

section \<open>Avoidance and deletion\<close>

lemma avoids_result:
  assumes "q < length h" and "cache_ok (h ! q)" and "is_perm (entries (h ! q))"
  shows "fst (avoids h p (Some q) 0 None)
           = Inr (\<not> contains_pattern (entries (h ! q)) (entries (h ! p)))"
proof -
  let ?h1 = "init h q"
  have ok1: "cache_ok (?h1 ! q)" using assms(2) by (simp add: cache_ok_def)
  have a1: "q < length ?h1" using assms(1) by simp
  have p1: "is_perm (entries (?h1 ! q))" using assms(3) by simp
  have r1: "fst (involved_in ?h1 q p 0)
              = Inr (contains_pattern (entries (h ! q)) (entries (h ! p)))"
    using involved_in_result [OF a1 ok1 p1, of p] by simp
  then show ?thesis
    by (cases "involved_in ?h1 q p 0") (auto simp: avoids_def Permutation_of_def)
qed

section \<open>What a containment query changes\<close>

lemma snd_involved_in: "snd (involved_in h a b lr) = with_bounds (init h b) a"
  by (simp add: involved_in_unfold Let_def)

lemma snd_avoids:
  "snd (avoids h p (Some q) lr None) = with_bounds (init (init h q) p) q"
proof -
  have "snd (avoids h p (Some q) lr None) = snd (involved_in (init h q) q p lr)"
    by (cases "involved_in (init h q) q p lr"; cases "fst (involved_in (init h q) q p lr)")
       (auto simp: avoids_def Permutation_of_def)
  then show ?thesis by (simp add: snd_involved_in)
qed

lemma cache_ok_init: "cache_ok (init h r ! s) = cache_ok (h ! s)"
  by (simp add: cache_ok_def)

lemma cache_ok_with_bounds:
  assumes "cache_ok (h ! s)"
  shows "cache_ok (with_bounds h r ! s)"
  using assms
  by (cases "set_up_bounds (entries (h ! r))")
     (auto simp: with_bounds_def cache_ok_def Let_def nth_update_cases)

section \<open>Deleting one position\<close>

lemma filter_neq_nth:
  assumes "distinct P" and "i < length P"
  shows "filter (\<lambda>v. v \<noteq> P ! i) P = take i P @ drop (Suc i) P"
proof -
  have P: "P = take i P @ P ! i # drop (Suc i) P"
    using assms(2) by (rule id_take_nth_drop)
  with assms(1) have "distinct (take i P @ P ! i # drop (Suc i) P)" by simp
  then have "P ! i \<notin> set (take i P)" and "P ! i \<notin> set (drop (Suc i) P)" by auto
  then have "filter (\<lambda>v. v \<noteq> P ! i) (take i P) = take i P"
    and "filter (\<lambda>v. v \<noteq> P ! i) (drop (Suc i) P) = drop (Suc i) P"
    by (auto simp: filter_id_conv)
  then have "filter (\<lambda>v. v \<noteq> P ! i) (take i P @ P ! i # drop (Suc i) P)
               = take i P @ drop (Suc i) P"
    by simp
  with P show ?thesis by simp
qed

lemma delete_entries_index:
  assumes "is_perm P" and "i < length P"
  shows "delete_entries P (Some (Scalar (int i))) None
           = Inr (map (\<lambda>v. if v < P ! i then v else v - 1) (take i P @ drop (Suc i) P))"
proof -
  from assms(1) have "distinct P" by (simp add: is_perm_def)
  from filter_neq_nth [OF this assms(2)] assms(2) show ?thesis
    by (simp add: delete_entries_def py_get_in_range bind_err_def)
qed

lemma nth_skip:
  assumes "k < length P - 1"
  shows "(take i P @ drop (Suc i) P) ! k = P ! (if k < i then k else Suc k)"
  using assms by (auto simp: nth_append min_def)

lemma contains_pattern_deleted:
  assumes p: "is_perm P" and i: "i < length P"
    and c: "contains_pattern Q (map (\<lambda>v. if v < P ! i then v else v - 1) (take i P @ drop (Suc i) P))"
  shows "contains_pattern Q P"
proof -
  let ?f = "\<lambda>v. if v < P ! i then v else v - 1"
  let ?e = "\<lambda>k. if k < i then k else Suc k"
  let ?D = "map ?f (take i P @ drop (Suc i) P)"
  have lenD: "length ?D = length P - 1" using i by simp
  from c obtain pos where s: "sorted_wrt (<) pos" and r: "list_all (\<lambda>k. k < length ?D) pos"
    and o: "order_isomorphic Q (map ((!) ?D) pos)"
    unfolding contains_pattern_def occurrence_def by blast
  from r lenD have r': "\<And>k. k \<in> set pos \<Longrightarrow> k < length P - 1" by (simp add: list_all_iff)
  have D: "?D ! k = ?f (P ! ?e k)" if "k < length P - 1" for k
  proof -
    from that i have "k < length (take i P @ drop (Suc i) P)" by simp
    then have "?D ! k = ?f ((take i P @ drop (Suc i) P) ! k)" by (rule nth_map)
    then show ?thesis by (simp only: nth_skip [OF that, of i])
  qed
  have mono: "(?f u < ?f w) = (u < w)" if "u \<noteq> P ! i" "w \<noteq> P ! i" for u w :: int
    using that by auto
  have ne: "P ! ?e k \<noteq> P ! i" if "k < length P - 1" for k
  proof -
    from that have "?e k < length P" "?e k \<noteq> i" by auto
    with is_perm_nth_eq [OF p _ i] show ?thesis by blast
  qed
  have s': "sorted_wrt (<) (map ?e pos)"
    unfolding sorted_wrt_map by (rule sorted_wrt_mono_rel [OF _ s]) auto
  have rng: "list_all (\<lambda>k. k < length P) (map ?e pos)"
  proof -
    have "?e k < length P" if "k \<in> set pos" for k
      using r' [OF that] by auto
    then have "\<forall>k \<in> set pos. ?e k < length P" by blast
    then show ?thesis unfolding list_all_iff set_map by (rule iffD2 [OF ball_simps(9)])
  qed
  have o': "order_isomorphic Q (map ((!) P) (map ?e pos))"
  proof -
    from o have len: "length Q = length pos" by (simp add: order_isomorphic_iff)
    have "(Q ! a < Q ! b) = (P ! ?e (pos ! a) < P ! ?e (pos ! b))"
      if "a < length Q" "b < length Q" for a b
    proof -
      from that len have ka: "pos ! a < length P - 1" and kb: "pos ! b < length P - 1"
        using r' by simp_all
      from o that len have "(Q ! a < Q ! b) = (?D ! (pos ! a) < ?D ! (pos ! b))"
        by (simp add: order_isomorphic_iff)
      also have "\<dots> = (?f (P ! ?e (pos ! a)) < ?f (P ! ?e (pos ! b)))"
        by (simp only: D [OF ka] D [OF kb])
      also have "\<dots> = (P ! ?e (pos ! a) < P ! ?e (pos ! b))"
        by (rule mono [OF ne [OF ka] ne [OF kb]])
      finally show ?thesis .
    qed
    with len show ?thesis by (simp add: order_isomorphic_iff)
  qed
  from s' rng o' show ?thesis unfolding contains_pattern_def occurrence_def by blast
qed

text \<open>
  Claim C6.  If \<open>P\<close> avoids \<open>Q\<close>, then the permutation obtained by deleting position \<open>i\<close>
  from \<open>P\<close> (\<^verbatim>\<open>P.delete(indices=i)\<close>) avoids \<open>Q\<close> too.  The three calls are run one after
  the other on the store: \<^verbatim>\<open>P.avoids(Q)\<close> returns \<^verbatim>\<open>True\<close>, then \<^verbatim>\<open>P.delete(indices=i)\<close>
  returns a new object, and \<^verbatim>\<open>avoids(Q)\<close> on that object returns \<^verbatim>\<open>True\<close>.
\<close>

theorem avoidance_monotone_under_deletion:
  assumes "p < length h" and "q < length h"
    and "cache_ok (h ! q)"
    and "is_perm (entries (h ! p))" and "is_perm (entries (h ! q))"
    and "i < length (entries (h ! p))"
    and "avoids h p (Some q) 0 None = (Inr True, h1)"
  shows "\<exists>r h2. delete h1 p (Some (Scalar (int i))) None = (Inr r, h2)
               \<and> fst (avoids h2 r (Some q) 0 None) = Inr True"
proof -
  let ?P = "entries (h ! p)" and ?Q = "entries (h ! q)"
  let ?D = "map (\<lambda>v. if v < ?P ! i then v else v - 1) (take i ?P @ drop (Suc i) ?P)"
  from assms(7) have h1: "h1 = with_bounds (init (init h q) p) q"
    using snd_avoids [of h p q 0] by simp
  have e1: "entries (h1 ! x) = entries (h ! x)" for x by (simp add: h1)
  have l1: "length h1 = length h" by (simp add: h1)
  have c1: "cache_ok (h1 ! q)"
    unfolding h1 using assms(3) by (intro cache_ok_with_bounds) (simp add: cache_ok_init)
  from avoids_result [OF assms(2,3,5), of p] assms(7)
  have nc: "\<not> contains_pattern ?Q ?P" by simp
  define new where "new = \<lparr>entries = ?D, lower_bound = [], upper_bound = [], bounds_set = False,
                            insertion_values = []\<rparr>"
  define h2 where "h2 = init (h1 @ [new]) (length h1)"
  have d: "delete h1 p (Some (Scalar (int i))) None = (Inr (length h1), h2)"
    using delete_entries_index [OF assms(4,6)]
    by (simp add: delete_def e1 Permutation_clean_def Let_def h2_def new_def)
  have q2: "q < length h2" using assms(2) l1 by (simp add: h2_def)
  have eq: "entries (h2 ! q) = ?Q" using assms(2) l1 by (simp add: h2_def nth_append e1)
  have er: "entries (h2 ! length h1) = ?D" by (simp add: h2_def new_def)
  have c2: "cache_ok (h2 ! q)"
    using c1 assms(2) l1 by (simp add: h2_def cache_ok_init nth_append)
  have p2: "is_perm (entries (h2 ! q))" using eq assms(5) by simp
  from contains_pattern_deleted [OF assms(4,6)] nc
  have "\<not> contains_pattern ?Q ?D" by blast
  with avoids_result [OF q2 c2 p2, of "length h1"] eq er
  have "fst (avoids h2 (length h1) (Some q) 0 None) = Inr True" by simp
  with d show ?thesis by blast
qed

theorem avoidance_monotone_under_deletion_witness:
  "\<exists>h1. avoids
       [\<lparr>entries = [2, 1, 0], lower_bound = [], upper_bound = [], bounds_set = False,
          insertion_values = [0, 1, 2, 3]\<rparr>,
        \<lparr>entries = [0, 1], lower_bound = [], upper_bound = [], bounds_set = False,
          insertion_values = [0, 1, 2]\<rparr>] 0 (Some 1) 0 None = (Inr True, h1)
      \<and> (\<exists>r h2. delete h1 0 (Some (Scalar (int 1))) None = (Inr r, h2)
               \<and> fst (avoids h2 r (Some 1) 0 None) = Inr True)"
proof -
  let ?h = "[\<lparr>entries = [2, 1, 0], lower_bound = [], upper_bound = [], bounds_set = False,
          insertion_values = [0, 1, 2, 3]\<rparr>,
        \<lparr>entries = [0, 1], lower_bound = [], upper_bound = [], bounds_set = False,
          insertion_values = [0, 1, 2]\<rparr>]"
  have l: "(0::nat) < length ?h" "(1::nat) < length ?h" by simp_all
  have c: "cache_ok (?h ! 1)" by (simp add: cache_ok_def)
  have p: "is_perm (entries (?h ! 0))" "is_perm (entries (?h ! 1))" by (simp_all add: is_perm_def)
  have i: "(1::nat) < length (entries (?h ! 0))" by simp
  have "fst (avoids ?h 0 (Some 1) 0 None) = Inr True" by code_simp
  then have av: "avoids ?h 0 (Some 1) 0 None = (Inr True, snd (avoids ?h 0 (Some 1) 0 None))"
    by (metis prod.collapse)
  from avoidance_monotone_under_deletion [OF l c p i av] av show ?thesis by blast
qed

section \<open>The frame of a containment query\<close>

lemma insertion_values_with_bounds [simp]:
  "insertion_values (with_bounds h r ! s) = insertion_values (h ! s)"
  by (cases "set_up_bounds (entries (h ! r))")
     (simp add: with_bounds_def Let_def nth_update_cases)

lemma with_bounds_other: "s \<noteq> r \<Longrightarrow> with_bounds h r ! s = h ! s"
  by (cases "set_up_bounds (entries (h ! r))") (simp add: with_bounds_def Let_def)

lemma init_other: "s \<noteq> r \<Longrightarrow> init h r ! s = h ! s"
  by (simp add: init_def)

lemma with_bounds_set:
  assumes "r < length h"
  shows "bounds_set (with_bounds h r ! r)"
    and "bounds_set (h ! r) \<Longrightarrow> with_bounds h r = h"
    and "\<not> bounds_set (h ! r) \<Longrightarrow>
           (lower_bound (with_bounds h r ! r), upper_bound (with_bounds h r ! r))
             = set_up_bounds (entries (h ! r))"
  using assms
  by (cases "set_up_bounds (entries (h ! r))"; simp add: with_bounds_def Let_def)+

text \<open>
  What a call of \<^verbatim>\<open>involved_in\<close> leaves as it was: the entries of every object, every
  attribute of an object that is neither the caller nor the argument, and the bound cache
  of every object but the caller.  The caller's cache is written when \<^verbatim>\<open>bounds_set\<close> is
  not yet set and kept otherwise.
\<close>

lemma involved_in_preserves:
  assumes "self < length h"
  shows "length (snd (involved_in h self P last_require)) = length h"
    and "entries (snd (involved_in h self P last_require) ! r) = entries (h ! r)"
    and "r \<noteq> self \<Longrightarrow> r \<noteq> P \<Longrightarrow> snd (involved_in h self P last_require) ! r = h ! r"
    and "r \<noteq> self \<Longrightarrow>
          lower_bound (snd (involved_in h self P last_require) ! r) = lower_bound (h ! r)
          \<and> upper_bound (snd (involved_in h self P last_require) ! r) = upper_bound (h ! r)
          \<and> bounds_set (snd (involved_in h self P last_require) ! r) = bounds_set (h ! r)"
    and "bounds_set (snd (involved_in h self P last_require) ! self)"
    and "bounds_set (h ! self) \<Longrightarrow>
          lower_bound (snd (involved_in h self P last_require) ! self) = lower_bound (h ! self)
          \<and> upper_bound (snd (involved_in h self P last_require) ! self) = upper_bound (h ! self)"
    and "\<not> bounds_set (h ! self) \<Longrightarrow>
          (lower_bound (snd (involved_in h self P last_require) ! self),
           upper_bound (snd (involved_in h self P last_require) ! self))
            = set_up_bounds (entries (h ! self))"
proof -
  let ?h1 = "init h P"
  let ?h2 = "with_bounds ?h1 self"
  have s: "snd (involved_in h self P last_require) = ?h2" by (rule snd_involved_in)
  from assms have l: "self < length ?h1" by simp
  show "length (snd (involved_in h self P last_require)) = length h" unfolding s by simp
  show "entries (snd (involved_in h self P last_require) ! r) = entries (h ! r)"
    unfolding s by simp
  show "snd (involved_in h self P last_require) ! r = h ! r" if "r \<noteq> self" and "r \<noteq> P"
    unfolding s using that by (simp add: with_bounds_other init_other)
  show "lower_bound (snd (involved_in h self P last_require) ! r) = lower_bound (h ! r)
          \<and> upper_bound (snd (involved_in h self P last_require) ! r) = upper_bound (h ! r)
          \<and> bounds_set (snd (involved_in h self P last_require) ! r) = bounds_set (h ! r)"
    if "r \<noteq> self"
    unfolding s using that by (simp add: with_bounds_other)
  show "bounds_set (snd (involved_in h self P last_require) ! self)"
    unfolding s by (rule with_bounds_set(1) [OF l])
  show "lower_bound (snd (involved_in h self P last_require) ! self) = lower_bound (h ! self)
          \<and> upper_bound (snd (involved_in h self P last_require) ! self) = upper_bound (h ! self)"
    if "bounds_set (h ! self)"
    unfolding s using with_bounds_set(2) [OF l] that by simp
  show "(lower_bound (snd (involved_in h self P last_require) ! self),
           upper_bound (snd (involved_in h self P last_require) ! self))
            = set_up_bounds (entries (h ! self))"
    if "\<not> bounds_set (h ! self)"
    unfolding s using with_bounds_set(3) [OF l] that by simp
qed

text \<open>
  Claim C9.  The claim: a containment query never mutates the entries of the pattern or of
  the target, the only state change of \<^verbatim>\<open>involved_in\<close> is writing the caller's own bound
  cache once, on its first query, and no query alters the bound cache of another object.
  The code changes more than that.  \<^verbatim>\<open>Permutation(P)\<close> returns the object \<^verbatim>\<open>P\<close> itself when
  \<^verbatim>\<open>P\<close> is a permutation already, and \<^verbatim>\<open>__init__\<close> then runs on it again and rebinds its
  \<^verbatim>\<open>insertion_values\<close> to the full range; \<^verbatim>\<open>involved_in\<close> does this to its argument, and
  \<^verbatim>\<open>involves\<close> and \<^verbatim>\<open>avoids\<close> to theirs as well.  Below, object 0 is the pattern
  with entries \<open>[0, 1]\<close>, newly made, and object 1 is the permutation with entries
  \<open>[1, 0]\<close> as \<^verbatim>\<open>Permutation([0]).right_extensions(basis=[Permutation([0, 1])])\<close> returns
  it, with \<^verbatim>\<open>insertion_values = [1, 0]\<close>: appending the value \<open>2\<close> would create the
  pattern.  After any of the three queries the attribute is \<open>[0, 1, 2]\<close>.
\<close>

theorem involved_in_resets_insertion_values:
  "insertion_values (
       [\<lparr>entries = [0, 1], lower_bound = [], upper_bound = [], bounds_set = False,
          insertion_values = [0, 1, 2]\<rparr>,
        \<lparr>entries = [1, 0], lower_bound = [], upper_bound = [], bounds_set = False,
          insertion_values = [1, 0]\<rparr>]
       ! 1) = [1, 0]
   \<and> fst (involved_in
       [\<lparr>entries = [0, 1], lower_bound = [], upper_bound = [], bounds_set = False,
          insertion_values = [0, 1, 2]\<rparr>,
        \<lparr>entries = [1, 0], lower_bound = [], upper_bound = [], bounds_set = False,
          insertion_values = [1, 0]\<rparr>]
       0 1 0) = Inr False
   \<and> insertion_values (snd (involved_in
       [\<lparr>entries = [0, 1], lower_bound = [], upper_bound = [], bounds_set = False,
          insertion_values = [0, 1, 2]\<rparr>,
        \<lparr>entries = [1, 0], lower_bound = [], upper_bound = [], bounds_set = False,
          insertion_values = [1, 0]\<rparr>]
       0 1 0) ! 1) = [0, 1, 2]
   \<and> snd (involved_in
       [\<lparr>entries = [0, 1], lower_bound = [], upper_bound = [], bounds_set = False,
          insertion_values = [0, 1, 2]\<rparr>,
        \<lparr>entries = [1, 0], lower_bound = [], upper_bound = [], bounds_set = False,
          insertion_values = [1, 0]\<rparr>]
       0 1 0) ! 1 \<noteq>
       [\<lparr>entries = [0, 1], lower_bound = [], upper_bound = [], bounds_set = False,
          insertion_values = [0, 1, 2]\<rparr>,
        \<lparr>entries = [1, 0], lower_bound = [], upper_bound = [], bounds_set = False,
          insertion_values = [1, 0]\<rparr>]
       ! 1
   \<and> insertion_values (snd (involves
       [\<lparr>entries = [0, 1], lower_bound = [], upper_bound = [], bounds_set = False,
          insertion_values = [0, 1, 2]\<rparr>,
        \<lparr>entries = [1, 0], lower_bound = [], upper_bound = [], bounds_set = False,
          insertion_values = [1, 0]\<rparr>]
       1 0 0) ! 1) = [0, 1, 2]
   \<and> insertion_values (snd (avoids
       [\<lparr>entries = [0, 1], lower_bound = [], upper_bound = [], bounds_set = False,
          insertion_values = [0, 1, 2]\<rparr>,
        \<lparr>entries = [1, 0], lower_bound = [], upper_bound = [], bounds_set = False,
          insertion_values = [1, 0]\<rparr>]
       1 (Some 0) 0 None) ! 1) = [0, 1, 2]"
proof -
  let ?h = "[\<lparr>entries = [0, 1], lower_bound = [], upper_bound = [], bounds_set = False,
          insertion_values = [0, 1, 2]\<rparr>,
        \<lparr>entries = [1, 0], lower_bound = [], upper_bound = [], bounds_set = False,
          insertion_values = [1, 0]\<rparr>]"
  have a: "insertion_values (?h ! 1) = [1, 0]" by simp
  have b: "insertion_values (snd (involved_in ?h 0 1 0) ! 1) = [0, 1, 2]"
    by (simp add: snd_involved_in init_def)
  have r: "fst (involved_in ?h 0 1 0) = Inr False" by code_simp
  from a b have c: "snd (involved_in ?h 0 1 0) ! 1 \<noteq> ?h ! 1" by auto
  have d: "insertion_values (snd (involves ?h 1 0 0) ! 1) = [0, 1, 2]"
    by (simp add: involves_def Permutation_of_def snd_involved_in init_def)
  have e: "insertion_values (snd (avoids ?h 1 (Some 0) 0 None) ! 1) = [0, 1, 2]"
    by (simp add: snd_avoids init_def)
  show ?thesis by (intro conjI a r b c d e)
qed
section \<open>Standardisation\<close>

definition rank_in :: "int list \<Rightarrow> int \<Rightarrow> int" where
  "rank_in L x = int (card {y \<in> set L. y < x})"

lemma py_index_sorted:
  "sorted xs \<Longrightarrow> distinct xs \<Longrightarrow> x \<in> set xs \<Longrightarrow>
     py_index xs x = Inr (card {y \<in> set xs. y < x})"
proof (induction xs)
  case Nil
  then show ?case by simp
next
  case (Cons y ys)
  show ?case
  proof (cases "y = x")
    case True
    with Cons.prems have "{z \<in> set (y # ys). z < x} = {}" by auto
    with True show ?thesis by simp
  next
    case False
    with Cons.prems have x: "x \<in> set ys" and yx: "y < x" by auto
    from Cons.prems have "sorted ys" "distinct ys" "y \<notin> set ys" by auto
    with Cons.IH x have ih: "py_index ys x = Inr (card {z \<in> set ys. z < x})" by simp
    have "{z \<in> set (y # ys). z < x} = insert y {z \<in> set ys. z < x}" using yx by auto
    moreover have "y \<notin> {z \<in> set ys. z < x}" using \<open>y \<notin> set ys\<close> by simp
    ultimately have "card {z \<in> set (y # ys). z < x} = Suc (card {z \<in> set ys. z < x})"
      by simp
    with False ih show ?thesis by (simp add: bind_err_def)
  qed
qed

lemma map_err_Inr:
  "(\<And>x. x \<in> set xs \<Longrightarrow> f x = Inr (g x)) \<Longrightarrow> map_err f xs = Inr (map g xs)"
  by (induction xs) (simp_all add: bind_err_def)

lemma standardize_distinct:
  assumes "distinct L"
  shows "standardize L = Inr (map (rank_in L) L)"
proof -
  have c: "card (set L) = length L" using assms by (rule distinct_card)
  have "py_index (sort L) x = Inr (card {y \<in> set L. y < x})" if "x \<in> set L" for x
    using py_index_sorted [of "sort L" x] assms that by simp
  then have "map_err (\<lambda>x. bind_err (py_index (sort L) x) (\<lambda>i. Inr (int i))) L
               = Inr (map (rank_in L) L)"
    by (intro map_err_Inr) (simp add: bind_err_def rank_in_def)
  with c show ?thesis by (simp add: standardize_def Let_def)
qed

lemma standardize_not_distinct: "\<not> distinct L \<Longrightarrow> standardize L = Inl AssertionError"
  by (auto simp: standardize_def card_distinct)

lemma rank_in_less:
  assumes "x \<in> set L"
  shows "(rank_in L x < rank_in L y) = (x < y)"
proof (cases "x < y")
  case True
  have "{z \<in> set L. z < x} \<subseteq> {z \<in> set L. z < y}" using True by auto
  moreover have "x \<in> {z \<in> set L. z < y}" "x \<notin> {z \<in> set L. z < x}"
    using True assms by simp_all
  ultimately have "{z \<in> set L. z < x} \<subset> {z \<in> set L. z < y}" by blast
  then have "card {z \<in> set L. z < x} < card {z \<in> set L. z < y}"
    by (intro psubset_card_mono) simp_all
  with True show ?thesis by (simp add: rank_in_def)
next
  case False
  then have "{z \<in> set L. z < y} \<subseteq> {z \<in> set L. z < x}" by auto
  then have "card {z \<in> set L. z < y} \<le> card {z \<in> set L. z < x}"
    by (intro card_mono) simp_all
  with False show ?thesis by (simp add: rank_in_def)
qed

lemma rank_in_bounds:
  assumes "x \<in> set L" and "distinct L"
  shows "0 \<le> rank_in L x" and "rank_in L x < int (length L)"
proof -
  show "0 \<le> rank_in L x" by (simp add: rank_in_def)
  have "{z \<in> set L. z < x} \<subseteq> set L" by auto
  moreover have "x \<in> set L" "x \<notin> {z \<in> set L. z < x}" using assms by simp_all
  ultimately have "{z \<in> set L. z < x} \<subset> set L" by blast
  then have "card {z \<in> set L. z < x} < card (set L)"
    by (intro psubset_card_mono) simp_all
  with distinct_card [OF assms(2)] show "rank_in L x < int (length L)"
    by (simp add: rank_in_def)
qed

lemma standardize_result:
  assumes "distinct L" and "standardize L = Inr p"
  shows "is_perm p" and "length p = length L"
    and "\<And>a b. a < length L \<Longrightarrow> b < length L \<Longrightarrow> (p ! a < p ! b) = (L ! a < L ! b)"
proof -
  from standardize_distinct [OF assms(1)] assms(2) have p: "p = map (rank_in L) L" by simp
  show len: "length p = length L" by (simp add: p)
  show ord: "(p ! a < p ! b) = (L ! a < L ! b)" if "a < length L" "b < length L" for a b
    using that by (simp add: p rank_in_less)
  have "distinct p"
    unfolding distinct_conv_nth
  proof (intro allI impI)
    fix i j assume "i < length p" "j < length p" "i \<noteq> j"
    with len assms(1) have "L ! i \<noteq> L ! j" by (simp add: nth_eq_iff_index_eq)
    then have "L ! i < L ! j \<or> L ! j < L ! i" by auto
    with ord [of i j] ord [of j i] \<open>i < length p\<close> \<open>j < length p\<close> len
    show "p ! i \<noteq> p ! j" by auto
  qed
  moreover have "list_all (\<lambda>v. 0 \<le> v \<and> v < int (length p)) p"
    using rank_in_bounds [OF _ assms(1)] by (simp add: p list_all_iff)
  ultimately show "is_perm p" by (simp add: is_perm_def)
qed

lemma is_perm_set:
  assumes "is_perm p"
  shows "set p = {0 ..< int (length p)}"
proof -
  from assms have d: "distinct p" and r: "set p \<subseteq> {0 ..< int (length p)}"
    by (auto simp: is_perm_def list_all_iff)
  have "card (set p) = card {0 ..< int (length p)}" using distinct_card [OF d] by simp
  with r show ?thesis by (intro card_subset_eq) simp_all
qed

lemma is_perm_rank:
  assumes "is_perm p" and "x \<in> set p"
  shows "rank_in p x = x"
proof -
  from is_perm_set [OF assms(1)] assms(2) have "{y \<in> set p. y < x} = {0 ..< x}" by auto
  moreover from is_perm_set [OF assms(1)] assms(2) have "0 \<le> x" by simp
  ultimately show ?thesis by (simp add: rank_in_def)
qed

lemma standardize_perm:
  assumes "is_perm p"
  shows "standardize p = Inr p"
proof -
  from assms have "distinct p" by (simp add: is_perm_def)
  from standardize_distinct [OF this] have "standardize p = Inr (map (rank_in p) p)" .
  moreover have "map (rank_in p) p = p"
    using is_perm_rank [OF assms] by (simp add: map_idI)
  ultimately show ?thesis by simp
qed

lemma rank_in_nth:
  assumes "distinct p" and "a < length p"
  shows "rank_in p (p ! a) = int (card {b. b < length p \<and> p ! b < p ! a})"
proof -
  have "{y \<in> set p. y < p ! a} = (\<lambda>b. p ! b) ` {b. b < length p \<and> p ! b < p ! a}"
    by (auto simp: set_conv_nth)
  moreover have "inj_on (\<lambda>b. p ! b) {b. b < length p \<and> p ! b < p ! a}"
    using assms(1) by (auto simp: inj_on_def nth_eq_iff_index_eq)
  ultimately show ?thesis by (simp add: rank_in_def card_image)
qed

lemma perm_order_unique:
  assumes p: "is_perm p" and q: "is_perm q" and len: "length p = length q"
    and ord: "\<And>a b. a < length p \<Longrightarrow> b < length p \<Longrightarrow> (p ! a < p ! b) = (q ! a < q ! b)"
  shows "p = q"
proof (rule nth_equalityI [OF len])
  fix a assume a: "a < length p"
  from p q have dp: "distinct p" and dq: "distinct q" by (simp_all add: is_perm_def)
  have "{b. b < length p \<and> p ! b < p ! a} = {b. b < length q \<and> q ! b < q ! a}"
    using ord a len by auto
  then have "rank_in p (p ! a) = rank_in q (q ! a)"
    using rank_in_nth [OF dp a] rank_in_nth [OF dq] a len by simp
  moreover have "rank_in p (p ! a) = p ! a" using is_perm_rank [OF p] a by simp
  moreover have "rank_in q (q ! a) = q ! a" using is_perm_rank [OF q] a len by simp
  ultimately show "p ! a = q ! a" by simp
qed

section \<open>Inflation\<close>

lemma py_index_nth:
  "distinct xs \<Longrightarrow> i < length xs \<Longrightarrow> py_index xs (xs ! i) = Inr i"
proof (induction xs arbitrary: i)
  case Nil
  then show ?case by simp
next
  case (Cons y ys)
  show ?case
  proof (cases i)
    case 0
    then show ?thesis by simp
  next
    case (Suc k)
    with Cons.prems have "k < length ys" "distinct ys" "ys ! k \<noteq> y" by auto
    with Cons.IH [of k] Suc show ?thesis by (simp add: bind_err_def)
  qed
qed

lemma py_index_notin: "x \<notin> set xs \<Longrightarrow> py_index xs x = Inl ValueError"
  by (induction xs) (auto simp: bind_err_def)

text \<open>The vertical shift of a block: the total length of the components below it.\<close>

definition shift_below :: "perm \<Rightarrow> perm list \<Rightarrow> int \<Rightarrow> int" where
  "shift_below B C v = (\<Sum>idx \<in> {idx. idx < length B \<and> B ! idx < v}. int (length (C ! idx)))"

definition block :: "perm \<Rightarrow> perm list \<Rightarrow> nat \<Rightarrow> int list" where
  "block B C idx = map (\<lambda>c. c + shift_below B C (B ! idx)) (C ! idx)"

lemma shift_below_Suc:
  assumes p: "is_perm B" and pos: "pos < length B" "B ! pos = v"
  shows "shift_below B C (v + 1) = shift_below B C v + int (length (C ! pos))"
proof -
  have "(B ! idx < v + 1) = (B ! idx < v \<or> idx = pos)" if i: "idx < length B" for idx
  proof -
    have "(B ! idx = v) = (idx = pos)" using is_perm_nth_eq [OF p i pos(1)] pos(2) by simp
    then show ?thesis by auto
  qed
  with pos(1) have "{idx. idx < length B \<and> B ! idx < v + 1}
                      = insert pos {idx. idx < length B \<and> B ! idx < v}"
    by auto
  moreover have "pos \<notin> {idx. idx < length B \<and> B ! idx < v}" using pos by simp
  moreover have "finite {idx. idx < length B \<and> B ! idx < v}" by simp
  ultimately show ?thesis by (simp add: shift_below_def)
qed

lemma inflate_loop_inv:
  assumes p: "is_perm B" and lc: "length C = length B"
  shows "a \<le> length B \<Longrightarrow> length infl = length B \<Longrightarrow> shift = shift_below B C (int a)
     \<Longrightarrow> (\<And>idx. idx < length B \<Longrightarrow> infl ! idx = (if B ! idx < int a then block B C idx else []))
     \<Longrightarrow> inflate_loop B C (map int [a ..< length B]) (infl, shift)
           = Inr (map (block B C) [0 ..< length B], shift_below B C (int (length B)))"
proof (induction "length B - a" arbitrary: a infl shift)
  case 0
  then have a: "a = length B" by simp
  have "infl = map (block B C) [0 ..< length B]"
  proof (rule nth_equalityI)
    show "length infl = length (map (block B C) [0 ..< length B])" using 0 by simp
  next
    fix idx assume "idx < length infl"
    with 0 have i: "idx < length B" by simp
    from is_perm_nth(2) [OF p i] 0(5) [OF i] a i
    show "infl ! idx = map (block B C) [0 ..< length B] ! idx" by simp
  qed
  with 0 a show ?case by simp
next
  case (Suc k)
  then have al: "a < length B" by simp
  from is_perm_set [OF p] al have "int a \<in> set B" by simp
  then obtain pos where pos: "pos < length B" "B ! pos = int a" by (auto simp: set_conv_nth)
  from p have d: "distinct B" by (simp add: is_perm_def)
  have gi: "py_index B (int a) = Inr pos" using py_index_nth [OF d pos(1)] pos(2) by simp
  have gc: "py_get C (int pos) = Inr (C ! pos)" using pos lc by (simp add: py_get_in_range)
  let ?X = "map (\<lambda>component_value. component_value + shift) (C ! pos)"
  have si: "py_set infl (int pos) ?X = Inr (infl[pos := ?X])"
    using pos Suc.prems(2) by (simp add: py_set_in_range)
  have X: "?X = block B C pos" using Suc.prems(3) pos by (simp add: block_def)
  have sh: "shift + int (length (C ! pos)) = shift_below B C (int (Suc a))"
    using shift_below_Suc [OF p pos, of C] Suc.prems(3) by (simp add: add.commute)
  have inv: "(infl[pos := ?X]) ! idx = (if B ! idx < int (Suc a) then block B C idx else [])"
    if i: "idx < length B" for idx
  proof (cases "idx = pos")
    case True
    with pos Suc.prems(2) X show ?thesis by simp
  next
    case False
    with is_perm_nth_eq [OF p i pos(1)] pos(2) have "B ! idx \<noteq> int a" by simp
    then have "(B ! idx < int (Suc a)) = (B ! idx < int a)" by auto
    with False Suc.prems(4) [OF i] show ?thesis by simp
  qed
  have k: "k = length B - Suc a" using Suc.hyps(2) by simp
  have "inflate_loop B C (map int [Suc a ..< length B]) (infl[pos := ?X], shift + int (length (C ! pos)))
          = Inr (map (block B C) [0 ..< length B], shift_below B C (int (length B)))"
    by (rule Suc.hyps(1) [OF k]) (use al Suc.prems(2) sh inv in simp_all)
  moreover have "map int [a ..< length B] = int a # map int [Suc a ..< length B]"
    using al by (simp add: upt_conv_Cons)
  ultimately show ?case using gi gc si by (simp add: bind_err_def)
qed

lemma inflate_formula:
  assumes p: "is_perm B" and lc: "length C = length B"
  shows "inflate B C = standardize (concat (map (block B C) [0 ..< length B]))"
proof -
  have "{idx. idx < length B \<and> B ! idx < int 0} = {}"
    using is_perm_nth(1) [OF p] by fastforce
  then have "shift_below B C (int 0) = 0" unfolding shift_below_def by (simp only: sum.empty)
  then have "inflate_loop B C (map int [0 ..< length B]) (replicate (length B) [], 0)
          = Inr (map (block B C) [0 ..< length B], shift_below B C (int (length B)))"
    using is_perm_nth(1) [OF p]
    by (intro inflate_loop_inv [OF p lc]) (auto simp: not_less [symmetric])
  with lc show ?thesis by (simp add: inflate_def Let_def bind_err_def)
qed

lemma distinct_concat_map:
  "distinct xs \<Longrightarrow> (\<And>x. x \<in> set xs \<Longrightarrow> distinct (f x))
     \<Longrightarrow> (\<And>x y. x \<in> set xs \<Longrightarrow> y \<in> set xs \<Longrightarrow> x \<noteq> y \<Longrightarrow> set (f x) \<inter> set (f y) = {})
     \<Longrightarrow> distinct (concat (map f xs))"
proof (induction xs)
  case Nil
  show ?case by simp
next
  case (Cons x xs)
  have "distinct (concat (map f xs))"
    by (rule Cons.IH) (use Cons.prems in auto)
  moreover have "distinct (f x)" using Cons.prems(2) by simp
  moreover have "set (f x) \<inter> set (f y) = {}" if "y \<in> set xs" for y
    using Cons.prems(1) that by (intro Cons.prems(3)) auto
  ultimately show ?case by auto
qed

lemma shift_below_mono: "u \<le> v \<Longrightarrow> shift_below B C u \<le> shift_below B C v"
  unfolding shift_below_def by (intro sum_mono2) auto

lemma shift_below_nonneg: "0 \<le> shift_below B C v"
  unfolding shift_below_def by (intro sum_nonneg) simp

lemma shift_below_top:
  assumes p: "is_perm B"
  shows "shift_below B C (int (length B)) = (\<Sum>idx < length B. int (length (C ! idx)))"
proof -
  have "{idx. idx < length B \<and> B ! idx < int (length B)} = {..< length B}"
    using is_perm_nth(2) [OF p] by auto
  then show ?thesis by (simp add: shift_below_def)
qed

lemma block_above:
  assumes p: "is_perm B" and i: "idx < length B"
  shows "shift_below B C (B ! idx) + int (length (C ! idx)) = shift_below B C (B ! idx + 1)"
  using shift_below_Suc [OF p i refl, of C] by simp

lemma block_set:
  assumes "is_perm (C ! idx)"
  shows "set (block B C idx)
           = {shift_below B C (B ! idx) ..< shift_below B C (B ! idx) + int (length (C ! idx))}"
proof -
  have "set (block B C idx) = (\<lambda>c. c + shift_below B C (B ! idx)) ` {0 ..< int (length (C ! idx))}"
    using is_perm_set [OF assms] by (simp add: block_def)
  also have "\<dots> = {shift_below B C (B ! idx) ..< shift_below B C (B ! idx) + int (length (C ! idx))}"
    by (auto simp: image_iff intro: bexI [of _ "x - shift_below B C (B ! idx)" for x])
  finally show ?thesis .
qed

lemma inflated_is_perm:
  assumes p: "is_perm B" and lc: "length C = length B"
    and c: "\<And>idx. idx < length B \<Longrightarrow> is_perm (C ! idx)"
  shows "is_perm (concat (map (block B C) [0 ..< length B]))"
proof -
  let ?R = "concat (map (block B C) [0 ..< length B])"
  let ?T = "\<lambda>idx. shift_below B C (B ! idx)"
  let ?N = "shift_below B C (int (length B))"
  have len: "int (length ?R) = ?N"
  proof -
    have "length ?R = (\<Sum>idx \<leftarrow> [0 ..< length B]. length (C ! idx))"
      by (simp add: length_concat o_def block_def)
    also have "\<dots> = (\<Sum>idx < length B. length (C ! idx))"
      by (simp add: interv_sum_list_conv_sum_set_nat atLeast0LessThan)
    finally show ?thesis by (simp add: shift_below_top [OF p])
  qed
  have top: "?T idx + int (length (C ! idx)) \<le> ?N" if i: "idx < length B" for idx
  proof -
    from is_perm_nth(2) [OF p i] have "B ! idx + 1 \<le> int (length B)" by simp
    from shift_below_mono [OF this] block_above [OF p i] show ?thesis by simp
  qed
  have disj: "set (block B C x) \<inter> set (block B C y) = {}"
    if x: "x < length B" and y: "y < length B" and xy: "B ! x < B ! y" for x y
  proof -
    from xy have "B ! x + 1 \<le> B ! y" by simp
    from shift_below_mono [OF this] block_above [OF p x]
    have "?T x + int (length (C ! x)) \<le> ?T y" by simp
    then show ?thesis unfolding block_set [OF c [OF x]] block_set [OF c [OF y]] by auto
  qed
  have "distinct ?R"
  proof (rule distinct_concat_map)
    show "distinct [0 ..< length B]" by simp
  next
    fix x assume "x \<in> set [0 ..< length B]"
    then have "distinct (C ! x)" using c [of x] by (simp add: is_perm_def)
    then show "distinct (block B C x)" by (simp add: block_def distinct_map inj_on_def)
  next
    fix x y assume "x \<in> set [0 ..< length B]" "y \<in> set [0 ..< length B]" "x \<noteq> y"
    then have x: "x < length B" and y: "y < length B" and "B ! x \<noteq> B ! y"
      using is_perm_nth_eq [OF p, of x y] by simp_all
    then have "B ! x < B ! y \<or> B ! y < B ! x" by auto
    with disj [OF x y] disj [OF y x] show "set (block B C x) \<inter> set (block B C y) = {}" by auto
  qed
  moreover have "0 \<le> v \<and> v < int (length ?R)" if "v \<in> set ?R" for v
  proof -
    from that obtain idx where i: "idx < length B" and v: "v \<in> set (block B C idx)" by auto
    from v block_set [OF c [OF i]] have "?T idx \<le> v" "v < ?T idx + int (length (C ! idx))"
      by simp_all
    with top [OF i] shift_below_nonneg [of B C "B ! idx"] len show ?thesis by simp
  qed
  ultimately show ?thesis by (simp add: is_perm_def list_all_iff)
qed

lemma inflate_perm:
  assumes p: "is_perm B" and lc: "length C = length B"
    and c: "\<And>idx. idx < length B \<Longrightarrow> is_perm (C ! idx)"
  shows "inflate B C = Inr (concat (map (block B C) [0 ..< length B]))"
  using inflate_formula [OF p lc] standardize_perm [OF inflated_is_perm [OF p lc c]] by simp

text \<open>
  Claim C7.  For a base permutation and a list of components that are permutations,
  \<^verbatim>\<open>inflate\<close> raises \<^verbatim>\<open>ValueError\<close> if and only if the number of components differs
  from the length of the base; when the two are equal it returns a permutation and
  raises nothing.
\<close>

theorem inflate_shape:
  assumes "is_perm base" and "list_all is_perm components"
  shows "(inflate base components = Inl ValueError) = (length components \<noteq> length base)
    \<and> (if length components = length base
        then \<exists>p. inflate base components = Inr p \<and> is_perm p
        else inflate base components = Inl ValueError)"
proof (cases "length components = length base")
  case False
  then show ?thesis by (auto simp: inflate_def Let_def)
next
  case True
  have c: "is_perm (components ! idx)" if "idx < length base" for idx
    using assms(2) that True by (simp add: list_all_length)
  from inflate_perm [OF assms(1) True c] inflated_is_perm [OF assms(1) True c] True
  show ?thesis by simp
qed

theorem inflate_shape_witness:
  "is_perm [1, 0] \<and> list_all is_perm [[0, 1], [0]]
   \<and> (inflate [1, 0] [[0, 1], [0]] = Inl ValueError)
       = (length [[0, 1], [0 :: int]] \<noteq> length [1, 0 :: int])
   \<and> (if length [[0, 1], [0 :: int]] = length [1, 0 :: int]
       then \<exists>p. inflate [1, 0] [[0, 1], [0]] = Inr p \<and> is_perm p
       else inflate [1, 0] [[0, 1], [0]] = Inl ValueError)
   \<and> inflate [1, 0] [[0, 1], [0]] = Inr [1, 2, 0]
   \<and> inflate [1, 0] [[0, 1]] = Inl ValueError"
proof -
  have p: "is_perm [1, 0]" by (simp add: is_perm_def)
  have c: "list_all is_perm [[0, 1], [0]]" by (simp add: is_perm_def)
  have v: "inflate [1, 0] [[0, 1], [0]] = Inr [1, 2, 0]" by code_simp
  have e: "inflate [1, 0] [[0, 1]] = Inl ValueError" by code_simp
  from inflate_shape [OF p c] p c v e show ?thesis by blast
qed


section \<open>Intervals and the simplicity tests\<close>

text \<open>A proper interval: a range of at least two and fewer than all positions that passes the test.\<close>

definition has_interval :: "perm \<Rightarrow> bool" where
  "has_interval P = (\<exists>i j. 2 \<le> i \<and> i < length P \<and> j + i \<le> length P \<and> interval_at P i j)"

lemma maximal_interval_inner_None:
  "maximal_interval_inner self i js = None \<longleftrightarrow> (\<forall>j \<in> set js. \<not> interval_at self i j)"
  by (induction js) auto

lemma maximal_interval_outer_None:
  "maximal_interval_outer self is = None \<longleftrightarrow>
     (\<forall>i \<in> set is. \<forall>j \<in> set [0 ..< length self - i + 1]. \<not> interval_at self i j)"
proof (induction "is")
  case Nil
  show ?case by simp
next
  case (Cons a "is")
  show ?case
  proof (cases "maximal_interval_inner self a [0 ..< length self - a + 1]")
    case None
    with Cons.IH maximal_interval_inner_None [of self a "[0 ..< length self - a + 1]"]
    show ?thesis by simp
  next
    case (Some r)
    with maximal_interval_inner_None [of self a "[0 ..< length self - a + 1]"]
    show ?thesis by auto
  qed
qed

lemma maximal_interval_none: "maximal_interval P = (0, 0) \<longleftrightarrow> \<not> has_interval P"
proof (cases "maximal_interval_outer P (rev [2 ..< length P])")
  case None
  then have "maximal_interval P = (0, 0)" by (simp add: maximal_interval_def)
  moreover have "\<not> has_interval P"
  proof
    assume "has_interval P"
    then obtain i j where "2 \<le> i" "i < length P" "j + i \<le> length P" "interval_at P i j"
      unfolding has_interval_def by blast
    moreover from this have "i \<in> set (rev [2 ..< length P])" "j \<in> set [0 ..< length P - i + 1]"
      by auto
    ultimately show False using None maximal_interval_outer_None by blast
  qed
  ultimately show ?thesis by simp
next
  case (Some r)
  obtain i j where r: "r = (i, j)" by (cases r)
  with Some have m: "maximal_interval P = (i, j)" by (simp add: maximal_interval_def)
  from maximal_interval_outer_Some [OF Some [unfolded r]]
  have "2 \<le> i" "i < length P" "j + i \<le> length P" "interval_at P i j" by auto
  then have "has_interval P" unfolding has_interval_def by blast
  with m \<open>2 \<le> i\<close> show ?thesis by auto
qed

text \<open>
  \<^verbatim>\<open>simple_location\<close> keeps in \<^verbatim>\<open>mins[j]\<close> and \<^verbatim>\<open>maxs[j]\<close> the extremes of a window that
  ends at \<open>j\<close>; round \<open>i\<close> of the outer loop widens the windows from \<open>i\<close> to \<open>i + 1\<close>
  entries, from the right, so that \<^verbatim>\<open>mins[j-1]\<close> is still the narrower one when it is
  read.
\<close>

definition window :: "perm \<Rightarrow> nat \<Rightarrow> nat \<Rightarrow> int set" where
  "window P w j = set (slice P (Suc j - w) (Suc j))"

lemma window_Suc:
  assumes "1 \<le> w" and "w \<le> j" and "j < length P"
  shows "window P (Suc w) j = insert (P ! j) (window P w (j - 1))"
    and "window P w (j - 1) \<noteq> {}" and "finite (window P w (j - 1))"
proof -
  from assms have e: "Suc (j - 1) = j" "Suc j - Suc w = j - w" "Suc (j - 1) - w = j - w" by simp_all
  from assms have "take (Suc w) (drop (j - w) P) = take w (drop (j - w) P) @ [P ! j]"
    by (simp add: take_Suc_conv_app_nth)
  then show "window P (Suc w) j = insert (P ! j) (window P w (j - 1))"
    using assms by (simp add: window_def slice_def e Suc_diff_le)
  from assms have "take w (drop (j - w) P) \<noteq> []" by auto
  then show "window P w (j - 1) \<noteq> {}" using assms by (simp add: window_def slice_def e)
  show "finite (window P w (j - 1))" by (simp add: window_def)
qed

lemma interval_at_window:
  assumes "i \<le> j"
  shows "interval_at P (Suc i) (j - i) \<longleftrightarrow> Max (window P (Suc i) j) - Min (window P (Suc i) j) = int i"
  using assms by (simp add: interval_at_def window_def)

definition level :: "perm \<Rightarrow> nat \<Rightarrow> int list \<Rightarrow> int list \<Rightarrow> nat \<Rightarrow> bool" where
  "level P w mins maxs j = (mins ! j = Min (window P w j) \<and> maxs ! j = Max (window P w j))"

lemma simple_location_inner_inv:
  assumes i: "1 \<le> i"
  shows "m \<le> length P \<Longrightarrow> length mins = length P \<Longrightarrow> length maxs = length P
     \<Longrightarrow> (\<And>j. i - 1 \<le> j \<Longrightarrow> j < m \<Longrightarrow> level P i mins maxs j)
     \<Longrightarrow> (\<And>j. m \<le> j \<Longrightarrow> j < length P \<Longrightarrow> level P (Suc i) mins maxs j)
     \<Longrightarrow> (case simple_location_inner P i (rev [i ..< m]) (mins, maxs) of
           Inl r \<Rightarrow> fst r = i \<and> (\<exists>j. i \<le> j \<and> j < m \<and> interval_at P (Suc i) (j - i))
         | Inr (mins', maxs') \<Rightarrow>
             (\<forall>j. i \<le> j \<and> j < m \<longrightarrow> \<not> interval_at P (Suc i) (j - i))
             \<and> length mins' = length P \<and> length maxs' = length P
             \<and> (\<forall>j. i \<le> j \<and> j < length P \<longrightarrow> level P (Suc i) mins' maxs' j))"
proof (induction m arbitrary: mins maxs)
  case 0
  then show ?case by simp
next
  case (Suc m)
  show ?case
  proof (cases "i \<le> m")
    case False
    then have "rev [i ..< Suc m] = []" by simp
    with Suc.prems False show ?thesis by (auto simp: not_le less_Suc_eq_le)
  next
    case True
    from Suc.prems have ml: "m < length P" by simp
    let ?mins = "mins[m := min (mins ! (m - 1)) (P ! m)]"
    let ?maxs = "maxs[m := max (maxs ! (m - 1)) (P ! m)]"
    have old: "level P i mins maxs (m - 1)"
      using Suc.prems(4) [of "m - 1"] True i by simp
    note w = window_Suc [OF i True ml]
    have new: "level P (Suc i) ?mins ?maxs m"
      using old ml Suc.prems(2,3) w
      by (simp add: level_def Min_insert Max_insert min.commute max.commute)
    have test: "(?maxs ! m - ?mins ! m = int i) = interval_at P (Suc i) (m - i)"
      using new by (simp add: interval_at_window [OF True] level_def)
    have r: "rev [i ..< Suc m] = m # rev [i ..< m]" using True by simp
    show ?thesis
    proof (cases "interval_at P (Suc i) (m - i)")
      case found: True
      with test have "simple_location_inner P i (rev [i ..< Suc m]) (mins, maxs) = Inl (i, m)"
        unfolding r by (simp add: Let_def)
      with found True show ?thesis by auto
    next
      case nf: False
      with test have step: "simple_location_inner P i (rev [i ..< Suc m]) (mins, maxs)
                        = simple_location_inner P i (rev [i ..< m]) (?mins, ?maxs)"
        unfolding r by (simp add: Let_def)
      have lo: "level P i ?mins ?maxs j" if "i - 1 \<le> j" "j < m" for j
        using Suc.prems(4) [of j] that by (simp add: level_def)
      have hi: "level P (Suc i) ?mins ?maxs j" if "m \<le> j" "j < length P" for j
      proof (cases "j = m")
        case True
        with new show ?thesis by simp
      next
        case False
        with that Suc.prems(5) [of j] show ?thesis by (simp add: level_def)
      qed
      have ih: "case simple_location_inner P i (rev [i ..< m]) (?mins, ?maxs) of
           Inl r \<Rightarrow> fst r = i \<and> (\<exists>j. i \<le> j \<and> j < m \<and> interval_at P (Suc i) (j - i))
         | Inr (mins', maxs') \<Rightarrow>
             (\<forall>j. i \<le> j \<and> j < m \<longrightarrow> \<not> interval_at P (Suc i) (j - i))
             \<and> length mins' = length P \<and> length maxs' = length P
             \<and> (\<forall>j. i \<le> j \<and> j < length P \<longrightarrow> level P (Suc i) mins' maxs' j)"
        by (rule Suc.IH) (use ml Suc.prems(2,3) lo hi in simp_all)
      show ?thesis
        unfolding step using ih nf
        by (auto split: sum.splits simp: less_Suc_eq)
    qed
  qed
qed

lemma simple_location_outer_inv:
  "1 \<le> i \<Longrightarrow> k < length P \<Longrightarrow> length mins = length P \<Longrightarrow> length maxs = length P
     \<Longrightarrow> (\<And>j. i - 1 \<le> j \<Longrightarrow> j < length P \<Longrightarrow> level P i mins maxs j)
     \<Longrightarrow> (simple_location_outer P [i ..< k] (mins, maxs) = (0, 0))
         = (\<forall>i' j. i \<le> i' \<and> i' < k \<and> i' \<le> j \<and> j < length P \<longrightarrow> \<not> interval_at P (Suc i') (j - i'))"
proof (induction "k - i" arbitrary: i mins maxs)
  case 0
  then have ki: "k \<le> i" by simp
  then have e: "[i ..< k] = []" by simp
  have "\<forall>i' j. i \<le> i' \<and> i' < k \<and> i' \<le> j \<and> j < length P
           \<longrightarrow> \<not> interval_at P (Suc i') (j - i')"
  proof (intro allI impI)
    fix i' j assume "i \<le> i' \<and> i' < k \<and> i' \<le> j \<and> j < length P"
    with ki have False by linarith
    then show "\<not> interval_at P (Suc i') (j - i')" ..
  qed
  then show ?case by (simp only: e simple_location_outer.simps refl simp_thms)
next
  case (Suc d)
  then have ik: "i < k" by simp
  then have l: "[i ..< k] = i # [Suc i ..< k]" by (simp add: upt_conv_Cons)
  have inner: "case simple_location_inner P i (rev [i ..< length P]) (mins, maxs) of
           Inl r \<Rightarrow> fst r = i \<and> (\<exists>j. i \<le> j \<and> j < length P \<and> interval_at P (Suc i) (j - i))
         | Inr (mins', maxs') \<Rightarrow>
             (\<forall>j. i \<le> j \<and> j < length P \<longrightarrow> \<not> interval_at P (Suc i) (j - i))
             \<and> length mins' = length P \<and> length maxs' = length P
             \<and> (\<forall>j. i \<le> j \<and> j < length P \<longrightarrow> level P (Suc i) mins' maxs' j)"
    by (rule simple_location_inner_inv [OF Suc.prems(1) le_refl Suc.prems(3,4)])
       (use Suc.prems(5) in simp_all)
  show ?case
  proof (cases "simple_location_inner P i (rev [i ..< length P]) (mins, maxs)")
    case (Inl r)
    with inner have f: "fst r = i" and e: "\<exists>j. i \<le> j \<and> j < length P \<and> interval_at P (Suc i) (j - i)"
      by simp_all
    from Inl f Suc.prems(1) have "simple_location_outer P [i ..< k] (mins, maxs) \<noteq> (0, 0)"
      unfolding l by (cases r) auto
    moreover from e ik have "\<not> (\<forall>i' j. i \<le> i' \<and> i' < k \<and> i' \<le> j \<and> j < length P
                                \<longrightarrow> \<not> interval_at P (Suc i') (j - i'))"
      by blast
    ultimately show ?thesis by simp
  next
    case (Inr st)
    obtain mins' maxs' where st: "st = (mins', maxs')" by (cases st)
    with Inr inner have none: "\<forall>j. i \<le> j \<and> j < length P \<longrightarrow> \<not> interval_at P (Suc i) (j - i)"
      and len: "length mins' = length P" "length maxs' = length P"
      and lv: "\<forall>j. i \<le> j \<and> j < length P \<longrightarrow> level P (Suc i) mins' maxs' j"
      by simp_all
    have d: "d = k - Suc i" using Suc.hyps(2) by simp
    have ih: "(simple_location_outer P [Suc i ..< k] (mins', maxs') = (0, 0))
         = (\<forall>i' j. Suc i \<le> i' \<and> i' < k \<and> i' \<le> j \<and> j < length P
                \<longrightarrow> \<not> interval_at P (Suc i') (j - i'))"
      by (rule Suc.hyps(1) [OF d _ Suc.prems(2) len]) (use lv in simp_all)
    have "simple_location_outer P [i ..< k] (mins, maxs)
            = simple_location_outer P [Suc i ..< k] (mins', maxs')"
      unfolding l using Inr st by simp
    moreover have "(\<forall>i' j. i \<le> i' \<and> i' < k \<and> i' \<le> j \<and> j < length P
                       \<longrightarrow> \<not> interval_at P (Suc i') (j - i'))
          = (\<forall>i' j. Suc i \<le> i' \<and> i' < k \<and> i' \<le> j \<and> j < length P
                       \<longrightarrow> \<not> interval_at P (Suc i') (j - i'))"
      using none by (metis Suc_leI le_neq_implies_less Suc_leD)
    ultimately show ?thesis using ih by simp
  qed
qed

lemma simple_location_none: "simple_location P = (0, 0) \<longleftrightarrow> \<not> has_interval P"
proof (cases "length P \<le> 2")
  case True
  then have "[1 ..< length P - 1] = []" by simp
  then have "simple_location P = (0, 0)"
    unfolding simple_location_def Let_def by (simp only: simple_location_outer.simps)
  moreover have "\<not> has_interval P" using True unfolding has_interval_def by auto
  ultimately show ?thesis by simp
next
  case False
  have lv: "level P 1 P P j" if "j < length P" for j
    using that by (simp add: level_def window_def slice_def take_Suc_conv_app_nth)
  have "(simple_location_outer P [1 ..< length P - 1] (P, P) = (0, 0))
         = (\<forall>i' j. 1 \<le> i' \<and> i' < length P - 1 \<and> i' \<le> j \<and> j < length P
                \<longrightarrow> \<not> interval_at P (Suc i') (j - i'))"
    by (rule simple_location_outer_inv) (use False lv in simp_all)
  moreover have "(\<forall>i' j. 1 \<le> i' \<and> i' < length P - 1 \<and> i' \<le> j \<and> j < length P
                \<longrightarrow> \<not> interval_at P (Suc i') (j - i')) = (\<not> has_interval P)"
  proof
    assume a: "\<forall>i' j. 1 \<le> i' \<and> i' < length P - 1 \<and> i' \<le> j \<and> j < length P
                \<longrightarrow> \<not> interval_at P (Suc i') (j - i')"
    show "\<not> has_interval P"
    proof
      assume "has_interval P"
      then obtain i j where h: "2 \<le> i" "i < length P" "j + i \<le> length P" "interval_at P i j"
        unfolding has_interval_def by blast
      then have "1 \<le> i - 1 \<and> i - 1 < length P - 1 \<and> i - 1 \<le> j + (i - 1) \<and> j + (i - 1) < length P"
        by auto
      with a have "\<not> interval_at P (Suc (i - 1)) (j + (i - 1) - (i - 1))" by blast
      with h show False by simp
    qed
  next
    assume n: "\<not> has_interval P"
    show "\<forall>i' j. 1 \<le> i' \<and> i' < length P - 1 \<and> i' \<le> j \<and> j < length P
                \<longrightarrow> \<not> interval_at P (Suc i') (j - i')"
    proof (intro allI impI notI)
      fix i' j assume c: "1 \<le> i' \<and> i' < length P - 1 \<and> i' \<le> j \<and> j < length P"
        and "interval_at P (Suc i') (j - i')"
      moreover from c have "2 \<le> Suc i'" "Suc i' < length P" "(j - i') + Suc i' \<le> length P" by auto
      ultimately have "has_interval P" unfolding has_interval_def by blast
      with n show False by simp
    qed
  qed
  ultimately show ?thesis by (simp add: simple_location_def Let_def)
qed

lemma is_simple_iff: "is_simple P \<longleftrightarrow> \<not> has_interval P"
proof -
  have "(\<exists>len \<in> set [2 ..< length P]. \<exists>start \<in> set [0 ..< length P - len + 1]. interval_at P len start)
          = has_interval P"
  proof
    assume "\<exists>len \<in> set [2 ..< length P]. \<exists>start \<in> set [0 ..< length P - len + 1].
              interval_at P len start"
    then obtain len start where m: "len \<in> set [2 ..< length P]"
      "start \<in> set [0 ..< length P - len + 1]" and ia: "interval_at P len start" by blast
    from m have l2: "2 \<le> len" "len < length P" by simp_all
    from m(2) have "start < length P - len + 1" by (simp del: upt_Suc)
    with l2 have "start + len \<le> length P" by linarith
    note l2 this
    with ia show "has_interval P" unfolding has_interval_def by blast
  next
    assume "has_interval P"
    then obtain i j where h: "2 \<le> i" "i < length P" "j + i \<le> length P" "interval_at P i j"
      unfolding has_interval_def by blast
    then have "i \<in> set [2 ..< length P]" "j \<in> set [0 ..< length P - i + 1]" by auto
    with h(4) show "\<exists>len \<in> set [2 ..< length P]. \<exists>start \<in> set [0 ..< length P - len + 1].
              interval_at P len start" by blast
  qed
  then show ?thesis by (simp add: is_simple_def)
qed

lemma initial_components:
  "map_err (\<lambda>i. standardize [1]) [0 ..< n] = Inr (replicate n [0])"
proof -
  have s: "standardize [1] = Inr [0]" by (simp add: standardize_def bind_err_def)
  have "map_err (\<lambda>i. standardize [1]) [0 ..< n] = Inr (map (\<lambda>i. [0]) [0 ..< n])"
    by (rule map_err_Inr) (simp add: s)
  then show ?thesis by (simp add: map_replicate_trivial)
qed

lemma decomposition_while_stepE:
  assumes "\<not> t base" and "decomposition_while t base comps = Inr (b, cs)"
  obtains i j base_j component base' where
    "maximal_interval base = (i, j)" and "i \<noteq> 0" and "length base = length comps"
    and "py_get base (int j) = Inr base_j"
    and "standardize (slice base j (i + j)) = Inr component"
    and "standardize (slice base 0 j @ [base_j] @ slice base (i + j) (length base)) = Inr base'"
    and "decomposition_while t base'
           (slice comps 0 j @ [component] @ slice comps (i + j) (length base)) = Inr (b, cs)"
proof -
  obtain i j where mi: "maximal_interval base = (i, j)" by (cases "maximal_interval base")
  note u = assms(2) [unfolded decomposition_while.simps [of t base comps]]
  from u assms(1) mi have lc: "length base = length comps" and i0: "i \<noteq> 0"
    by (auto simp del: decomposition_while.simps split: if_splits)
  from u assms(1) mi lc i0 obtain base_j component base' where
    "py_get base (int j) = Inr base_j"
    "standardize (slice base j (i + j)) = Inr component"
    "standardize (slice base 0 j @ [base_j] @ slice base (i + j) (length base)) = Inr base'"
    "decomposition_while t base'
       (slice comps 0 j @ [component] @ slice comps (i + j) (length base)) = Inr (b, cs)"
    by (auto simp del: decomposition_while.simps simp: bind_err_def Let_def split: sum.splits)
  with mi i0 lc that show ?thesis by blast
qed

lemma decomposition_while_length:
  "decomposition_while t base comps = Inr (b, cs) \<Longrightarrow> length b \<le> length base"
proof (induction t base comps rule: decomposition_while.induct)
  case (1 t base comps)
  show ?case
  proof (cases "t base")
    case True
    with "1.prems" [unfolded decomposition_while.simps [of t base comps]]
    show ?thesis by (simp del: decomposition_while.simps)
  next
    case False
    from decomposition_while_stepE [OF False "1.prems"]
    obtain i j base_j component base' where
      mi: "maximal_interval base = (i, j)" and i0: "i \<noteq> 0" and lc: "length base = length comps"
      and g: "py_get base (int j) = Inr base_j"
      and c: "standardize (slice base j (i + j)) = Inr component"
      and b: "standardize (slice base 0 j @ [base_j] @ slice base (i + j) (length base)) = Inr base'"
      and r: "decomposition_while t base'
                (slice comps 0 j @ [component] @ slice comps (i + j) (length base)) = Inr (b, cs)"
      by blast
    from lc have nl: "\<not> length base \<noteq> length comps" by simp
    from i0 have ni: "\<not> \<not> i \<noteq> 0" by simp
    from "1.IH" [OF False nl mi [symmetric] ni refl g refl c refl b r]
    have "length b \<le> length base'" .
    moreover from maximal_interval_found [OF mi i0] standardize_length [OF b]
    have "length base' < length base" by (auto simp: slice_def)
    ultimately show ?thesis by simp
  qed
qed

lemma decomposition_while_shrinks:
  assumes "\<not> t base" and "decomposition_while t base comps = Inr (b, cs)"
  shows "length b < length base"
proof -
  from decomposition_while_stepE [OF assms]
  obtain i j base_j component base' where
    mi: "maximal_interval base = (i, j)" and i0: "i \<noteq> 0" and lc: "length base = length comps"
    and g: "py_get base (int j) = Inr base_j"
    and c: "standardize (slice base j (i + j)) = Inr component"
    and b: "standardize (slice base 0 j @ [base_j] @ slice base (i + j) (length base)) = Inr base'"
    and r: "decomposition_while t base'
              (slice comps 0 j @ [component] @ slice comps (i + j) (length base)) = Inr (b, cs)"
    by blast
  from maximal_interval_found [OF mi i0] standardize_length [OF b]
  have "length base' < length base" by (auto simp: slice_def)
  with decomposition_while_length [OF r] show ?thesis by simp
qed

lemma decomposition_simple:
  "(decomposition P = Inr (P, replicate (length P) [0])) = is_simple P"
proof -
  have d: "decomposition P = decomposition_while is_simple P (replicate (length P) [0])"
    by (simp del: decomposition_while.simps
        add: decomposition_def decomposition_with_def Let_def initial_components bind_err_def)
  show ?thesis
  proof (cases "is_simple P")
    case True
    then show ?thesis
      unfolding d decomposition_while.simps [of is_simple P "replicate (length P) [0]"]
      by (simp del: decomposition_while.simps)
  next
    case False
    have "decomposition_while is_simple P (replicate (length P) [0]) \<noteq> Inr (P, cs)" for cs
      using decomposition_while_shrinks [of is_simple P "replicate (length P) [0]" P cs] False
      by (auto simp del: decomposition_while.simps)
    with False show ?thesis unfolding d by (simp del: decomposition_while.simps)
  qed
qed

text \<open>
  For distinct entries the test \<open>max - min = length - 1\<close> says that the values of the
  range form a contiguous range of integers.
\<close>

lemma interval_at_contiguous:
  assumes d: "distinct P" and i: "1 \<le> i" and r: "j + i \<le> length P"
  shows "interval_at P i j \<longleftrightarrow> (\<exists>lo. set (slice P j (j + i)) = {lo ..< lo + int i})"
proof -
  let ?W = "set (slice P j (j + i))"
  have len: "length (slice P j (j + i)) = i" using r by (simp add: slice_def)
  have dist: "distinct (slice P j (j + i))" using d by (simp add: slice_def)
  have card: "card ?W = i" using distinct_card [OF dist] len by simp
  have ne: "?W \<noteq> {}" using card i by auto
  have fin: "finite ?W" by simp
  show ?thesis
  proof
    assume "interval_at P i j"
    then have mm: "Max ?W - Min ?W = int i - 1" by (simp add: interval_at_def)
    have "?W \<subseteq> {Min ?W .. Max ?W}" using fin by auto
    moreover have "card {Min ?W .. Max ?W} = card ?W" using mm card i by simp
    ultimately have "?W = {Min ?W .. Max ?W}" by (intro card_subset_eq) simp_all
    also have "\<dots> = {Min ?W ..< Min ?W + int i}" using mm by auto
    finally show "\<exists>lo. ?W = {lo ..< lo + int i}" by blast
  next
    assume "\<exists>lo. ?W = {lo ..< lo + int i}"
    then obtain lo where W: "?W = {lo ..< lo + int i}" by blast
    from i have "{lo ..< lo + int i} = {lo .. lo + int i - 1}" by auto
    with W have W': "?W = {lo .. lo + int i - 1}" by simp
    from i have "lo \<le> lo + int i - 1" by simp
    then have le: "lo \<le> lo + int i - 1" .
    have "Max {lo .. lo + int i - 1} = lo + int i - 1"
      by (rule Max_eqI) (use le in simp_all)
    moreover have "Min {lo .. lo + int i - 1} = lo"
      by (rule Min_eqI) (use le in simp_all)
    ultimately show "interval_at P i j" unfolding interval_at_def W' by simp
  qed
qed

text \<open>
  Claim C4.  The three simplicity tests agree: \<^verbatim>\<open>decomposition\<close> returns the permutation
  itself with singleton components if and only if \<^verbatim>\<open>maximal_interval\<close> returns \<open>(0,0)\<close>,
  if and only if \<^verbatim>\<open>simple_location\<close> returns \<open>(0,0)\<close>, if and only if no range of
  positions of length between 2 and \<open>len(P) - 1\<close> holds a contiguous range of values.
\<close>

theorem simplicity_tests_agree:
  assumes "is_perm P"
  shows "(decomposition P = Inr (P, replicate (length P) [0])) = (maximal_interval P = (0, 0))
    \<and> (maximal_interval P = (0, 0)) = (simple_location P = (0, 0))
    \<and> (simple_location P = (0, 0))
        = (\<not> (\<exists>i j. 2 \<le> i \<and> i < length P \<and> j + i \<le> length P
                    \<and> (\<exists>lo. set (slice P j (j + i)) = {lo ..< lo + int i})))"
proof -
  from assms have d: "distinct P" by (simp add: is_perm_def)
  have c: "interval_at P i j = (\<exists>lo. set (slice P j (j + i)) = {lo ..< lo + int i})"
    if "2 \<le> i" and "j + i \<le> length P" for i j
    using that by (intro interval_at_contiguous [OF d]) simp_all
  have "has_interval P = (\<exists>i j. 2 \<le> i \<and> i < length P \<and> j + i \<le> length P
                    \<and> (\<exists>lo. set (slice P j (j + i)) = {lo ..< lo + int i}))"
  proof
    assume "has_interval P"
    then obtain i j where ij: "2 \<le> i" "i < length P" "j + i \<le> length P" "interval_at P i j"
      unfolding has_interval_def by blast
    from ij(4) c [OF ij(1) ij(3)]
    have "\<exists>lo. set (slice P j (j + i)) = {lo ..< lo + int i}" by simp
    with ij(1-3) show "\<exists>i j. 2 \<le> i \<and> i < length P \<and> j + i \<le> length P
                    \<and> (\<exists>lo. set (slice P j (j + i)) = {lo ..< lo + int i})" by blast
  next
    assume "\<exists>i j. 2 \<le> i \<and> i < length P \<and> j + i \<le> length P
                    \<and> (\<exists>lo. set (slice P j (j + i)) = {lo ..< lo + int i})"
    then obtain i j where ij: "2 \<le> i" "i < length P" "j + i \<le> length P"
      "\<exists>lo. set (slice P j (j + i)) = {lo ..< lo + int i}" by blast
    from ij(4) c [OF ij(1) ij(3)] have "interval_at P i j" by simp
    with ij(1-3) show "has_interval P" unfolding has_interval_def by blast
  qed
  then show ?thesis
    by (simp only: decomposition_simple is_simple_iff maximal_interval_none
        simple_location_none simp_thms)
qed

theorem simplicity_tests_agree_witness:
  "is_perm [1, 3, 0, 2]
   \<and> decomposition [1, 3, 0, 2] = Inr ([1, 3, 0, 2], replicate (length [1, 3, 0, 2 :: int]) [0])
   \<and> maximal_interval [1, 3, 0, 2] = (0, 0)
   \<and> simple_location [1, 3, 0, 2] = (0, 0)
   \<and> is_perm [1, 0, 2]
   \<and> decomposition [1, 0, 2] \<noteq> Inr ([1, 0, 2], replicate (length [1, 0, 2 :: int]) [0])
   \<and> maximal_interval [1, 0, 2] \<noteq> (0, 0)
   \<and> simple_location [1, 0, 2] \<noteq> (0, 0)"
proof -
  have p: "is_perm [1, 3, 0, 2]" by (simp add: is_perm_def)
  have q: "is_perm [1, 0, 2]" by (simp add: is_perm_def)
  have m: "maximal_interval [1, 3, 0, 2] = (0, 0)" by code_simp
  have n: "maximal_interval [1, 0, 2] \<noteq> (0, 0)" by code_simp
  note a = simplicity_tests_agree [OF p]
  note b = simplicity_tests_agree [OF q]
  from a m have d: "decomposition [1, 3, 0, 2]
      = Inr ([1, 3, 0, 2], replicate (length [1, 3, 0, 2 :: int]) [0])" by blast
  from a m have s: "simple_location [1, 3, 0, 2] = (0, 0)" by blast
  from b n have e: "decomposition [1, 0, 2]
      \<noteq> Inr ([1, 0, 2], replicate (length [1, 0, 2 :: int]) [0])" by blast
  from b n have t: "simple_location [1, 0, 2] \<noteq> (0, 0)" by blast
  show ?thesis by (intro conjI p q m n d s e t)
qed

section \<open>Substitution decomposition and inflation\<close>

text \<open>Position \<open>k\<close> lies in the range of \<open>i\<close> positions that starts at \<open>j\<close>.\<close>

definition inside :: "nat \<Rightarrow> nat \<Rightarrow> nat \<Rightarrow> bool" where
  "inside j i k = (j \<le> k \<and> k < j + i)"

text \<open>No entry outside the range lies between two entries of the range.\<close>

definition convex_at :: "perm \<Rightarrow> nat \<Rightarrow> nat \<Rightarrow> bool" where
  "convex_at B i j =
     (\<forall>x a b. x < length B \<and> \<not> inside j i x \<and> inside j i a \<and> inside j i b
        \<longrightarrow> \<not> (B ! a < B ! x \<and> B ! x < B ! b))"

lemma slice_set:
  assumes "j + i \<le> length B"
  shows "set (slice B j (j + i)) = {B ! k | k. inside j i k}"
proof -
  have "set (slice B j (j + i)) = set (take i (drop j B))" by (simp add: slice_def)
  also have "\<dots> = nth (drop j B) ` {0 ..< i}"
    using assms by (intro nth_image [symmetric]) simp
  also have "\<dots> = {B ! k | k. inside j i k}"
  proof (intro set_eqI iffI)
    fix v assume "v \<in> nth (drop j B) ` {0 ..< i}"
    then obtain k where k: "k < i" "v = drop j B ! k" by auto
    with assms have "v = B ! (j + k)" by simp
    moreover from k have "inside j i (j + k)" by (simp add: inside_def)
    ultimately show "v \<in> {B ! k | k. inside j i k}" by blast
  next
    fix v assume "v \<in> {B ! k | k. inside j i k}"
    then obtain k where k: "inside j i k" "v = B ! k" by blast
    then have "k - j < i" "j + (k - j) = k" by (auto simp: inside_def)
    with assms k have "v = drop j B ! (k - j)" by simp
    with \<open>k - j < i\<close> show "v \<in> nth (drop j B) ` {0 ..< i}" by auto
  qed
  finally show ?thesis .
qed

lemma interval_at_convex:
  assumes p: "is_perm B" and i: "1 \<le> i" and r: "j + i \<le> length B"
  shows "interval_at B i j = convex_at B i j"
proof -
  from p have d: "distinct B" by (simp add: is_perm_def)
  let ?W = "set (slice B j (j + i))"
  have W: "?W = {B ! k | k. inside j i k}" by (rule slice_set [OF r])
  have inl: "k < length B" if "inside j i k" for k using that r by (simp add: inside_def)
  show ?thesis
  proof
    assume "interval_at B i j"
    with interval_at_contiguous [OF d i r] obtain lo where lo: "?W = {lo ..< lo + int i}"
      by blast
    show "convex_at B i j"
      unfolding convex_at_def
    proof (intro allI impI notI)
      fix x a b
      assume h: "x < length B \<and> \<not> inside j i x \<and> inside j i a \<and> inside j i b"
        and o: "B ! a < B ! x \<and> B ! x < B ! b"
      from h W have "B ! a \<in> ?W" "B ! b \<in> ?W" by blast+
      with lo o have "B ! x \<in> ?W" by auto
      with W obtain c where c: "inside j i c" "B ! x = B ! c" by blast
      from c(2) h inl [OF c(1)] d have "x = c" by (simp add: nth_eq_iff_index_eq)
      with c(1) h show False by simp
    qed
  next
    assume cv: "convex_at B i j"
    have fin: "finite ?W" by simp
    have ne: "?W \<noteq> {}" using i r by (simp add: slice_def)
    from Min_in [OF fin ne] W obtain a where a: "inside j i a" "Min ?W = B ! a" by blast
    from Max_in [OF fin ne] W obtain b where b: "inside j i b" "Max ?W = B ! b" by blast
    have sub: "{Min ?W .. Max ?W} \<subseteq> ?W"
    proof
      fix v assume v: "v \<in> {Min ?W .. Max ?W}"
      from a(2) b(2) inl [OF a(1)] inl [OF b(1)] is_perm_set [OF p]
      have "0 \<le> Min ?W" "Max ?W < int (length B)"
        by (metis atLeastLessThan_iff nth_mem)+
      with v have "v \<in> set B" unfolding is_perm_set [OF p] by simp
      then obtain x where x: "x < length B" "B ! x = v" by (auto simp: in_set_conv_nth)
      show "v \<in> ?W"
      proof (cases "inside j i x")
        case True
        with x W show ?thesis by blast
      next
        case False
        have "v \<noteq> B ! a"
        proof
          assume "v = B ! a"
          with x inl [OF a(1)] d have "x = a" by (simp add: nth_eq_iff_index_eq)
          with a(1) False show False by simp
        qed
        moreover have "v \<noteq> B ! b"
        proof
          assume "v = B ! b"
          with x inl [OF b(1)] d have "x = b" by (simp add: nth_eq_iff_index_eq)
          with b(1) False show False by simp
        qed
        ultimately have "B ! a < B ! x \<and> B ! x < B ! b" using v a(2) b(2) x(2) by auto
        with cv x(1) False a(1) b(1) show ?thesis unfolding convex_at_def by blast
      qed
    qed
    have "?W \<subseteq> {Min ?W .. Max ?W}" using fin by auto
    with sub have eq: "?W = {Min ?W .. Max ?W}" by blast
    have len: "length (slice B j (j + i)) = i" using r by (simp add: slice_def)
    have "distinct (slice B j (j + i))" using d by (simp add: slice_def)
    from distinct_card [OF this] len have card: "card ?W = i" by simp
    have "Min ?W \<le> Max ?W" using fin ne by simp
    moreover from eq card have "card {Min ?W .. Max ?W} = i" by simp
    ultimately have "Max ?W - Min ?W = int i - 1" by simp
    then show "interval_at B i j" by (simp add: interval_at_def)
  qed
qed

lemma convex_side:
  assumes d: "distinct B" and cv: "convex_at B i j" and r: "j + i \<le> length B"
    and x: "x < length B" "\<not> inside j i x" and a: "inside j i a" and b: "inside j i b"
  shows "(B ! x < B ! a) = (B ! x < B ! b)"
proof -
  have la: "a < length B" and lb: "b < length B" using a b r by (simp_all add: inside_def)
  from x a b have "x \<noteq> a" "x \<noteq> b" by auto
  with d x(1) la lb have ne: "B ! x \<noteq> B ! a" "B ! x \<noteq> B ! b"
    by (simp_all add: nth_eq_iff_index_eq)
  from cv x a b have "\<not> (B ! a < B ! x \<and> B ! x < B ! b)" "\<not> (B ! b < B ! x \<and> B ! x < B ! a)"
    unfolding convex_at_def by blast+
  with ne show ?thesis by linarith
qed

text \<open>
  The positions of the new base, which keeps the first entry of the range and drops the
  others, in terms of the positions of the old one, and back.
\<close>

definition expand :: "nat \<Rightarrow> nat \<Rightarrow> nat \<Rightarrow> nat" where
  "expand i j k = (if k \<le> j then k else k + i - 1)"

definition contract :: "nat \<Rightarrow> nat \<Rightarrow> nat \<Rightarrow> nat" where
  "contract i j x = (if x < j then x else if x < j + i then j else x - (i - 1))"

lemma contract_expand: "1 \<le> i \<Longrightarrow> contract i j (expand i j k) = k"
  by (auto simp: contract_def expand_def)

lemma expand_contract: "1 \<le> i \<Longrightarrow> \<not> inside j i x \<Longrightarrow> expand i j (contract i j x) = x"
  by (auto simp: contract_def expand_def inside_def)

lemma expand_inside: "1 \<le> i \<Longrightarrow> inside j i (expand i j k) = (k = j)"
  by (auto simp: expand_def inside_def)

lemma expand_less:
  "1 \<le> i \<Longrightarrow> j + i \<le> m \<Longrightarrow> (expand i j k < m) = (k < m - i + 1)"
  by (auto simp: expand_def)

lemma contract_less:
  "1 \<le> i \<Longrightarrow> j + i \<le> m \<Longrightarrow> x < m \<Longrightarrow> contract i j x < m - i + 1"
  by (auto simp: contract_def)

lemma expand_inj: "1 \<le> i \<Longrightarrow> expand i j k = expand i j l \<Longrightarrow> k = l"
  by (auto simp: expand_def split: if_splits)

lemma new_base_nth:
  assumes i: "1 \<le> i" and r: "j + i \<le> length B"
  shows "slice B 0 j @ [B ! j] @ slice B (i + j) (length B)
           = map (\<lambda>k. B ! expand i j k) [0 ..< length B - i + 1]"
proof (rule nth_equalityI)
  show "length (slice B 0 j @ [B ! j] @ slice B (i + j) (length B))
          = length (map (\<lambda>k. B ! expand i j k) [0 ..< length B - i + 1])"
    using i r by (simp add: slice_def)
next
  fix k assume "k < length (slice B 0 j @ [B ! j] @ slice B (i + j) (length B))"
  with i r have k: "k < length B - i + 1" by (simp add: slice_def)
  have l0: "length (slice B 0 j) = j" using r by (simp add: slice_def)
  consider "k < j" | "k = j" | "j < k" by linarith
  then have "(slice B 0 j @ [B ! j] @ slice B (i + j) (length B)) ! k = B ! expand i j k"
  proof cases
    case 1
    then show ?thesis using r by (simp add: nth_append l0 expand_def) (simp add: slice_def)
  next
    case 2
    then show ?thesis by (simp add: nth_append l0 expand_def)
  next
    case 3
    then have e: "expand i j k = i + j + (k - j - 1)" using i by (simp add: expand_def)
    from 3 have "(slice B 0 j @ [B ! j] @ slice B (i + j) (length B)) ! k
        = slice B (i + j) (length B) ! (k - j - 1)"
      by (simp add: nth_append l0 nth_Cons')
    also have "\<dots> = B ! (i + j + (k - j - 1))"
      using 3 k i r by (simp add: slice_def)
    finally show ?thesis unfolding e .
  qed
  with k show "(slice B 0 j @ [B ! j] @ slice B (i + j) (length B)) ! k
          = map (\<lambda>k. B ! expand i j k) [0 ..< length B - i + 1] ! k"
    by (simp del: upt_Suc)
qed

lemma new_base_distinct:
  assumes d: "distinct B" and i: "1 \<le> i" and r: "j + i \<le> length B"
  shows "distinct (map (\<lambda>k. B ! expand i j k) [0 ..< length B - i + 1])"
proof -
  have "inj_on (\<lambda>k. B ! expand i j k) (set [0 ..< length B - i + 1])"
  proof (rule inj_onI)
    fix k l
    assume k: "k \<in> set [0 ..< length B - i + 1]" and l: "l \<in> set [0 ..< length B - i + 1]"
      and e: "B ! expand i j k = B ! expand i j l"
    from k l have "k < length B - i + 1" "l < length B - i + 1" by auto
    then have "expand i j k < length B" "expand i j l < length B"
      using expand_less [OF i r] by blast+
    with e d have "expand i j k = expand i j l" by (simp add: nth_eq_iff_index_eq)
    then show "k = l" by (rule expand_inj [OF i])
  qed
  then show ?thesis by (simp add: distinct_map del: upt_Suc)
qed

text \<open>The new base: a permutation one entry long for the whole range, ordered as the old one.\<close>

lemma new_base_result:
  assumes p: "is_perm B" and i: "1 \<le> i" and r: "j + i \<le> length B"
    and s: "standardize (slice B 0 j @ [B ! j] @ slice B (i + j) (length B)) = Inr B'"
  shows "is_perm B'" and "length B' = length B - i + 1"
    and "\<And>k l. k < length B' \<Longrightarrow> l < length B' \<Longrightarrow>
           (B' ! k < B' ! l) = (B ! expand i j k < B ! expand i j l)"
proof -
  from p have d: "distinct B" by (simp add: is_perm_def)
  let ?nb = "map (\<lambda>k. B ! expand i j k) [0 ..< length B - i + 1]"
  from s have s': "standardize ?nb = Inr B'" unfolding new_base_nth [OF i r] .
  note res = standardize_result [OF new_base_distinct [OF d i r] s']
  show "is_perm B'" by (rule res(1))
  show len: "length B' = length B - i + 1" using res(2) by simp
  fix k l assume kl: "k < length B'" "l < length B'"
  with len have kl': "k < length ?nb" "l < length ?nb" by simp_all
  from res(3) [OF kl'] kl len show "(B' ! k < B' ! l) = (B ! expand i j k < B ! expand i j l)"
    by (simp del: upt_Suc)
qed

lemma collapse_nth:
  assumes i: "1 \<le> i" and r: "j + i \<le> length xs" and k: "k < length xs - i + 1"
  shows "(slice xs 0 j @ [y] @ slice xs (i + j) (length xs)) ! k
           = (if k = j then y else xs ! expand i j k)"
proof -
  have l0: "length (slice xs 0 j) = j" using r by (simp add: slice_def)
  consider "k < j" | "k = j" | "j < k" by linarith
  then show ?thesis
  proof cases
    case 1
    then show ?thesis using r by (simp add: nth_append l0 expand_def) (simp add: slice_def)
  next
    case 2
    then show ?thesis by (simp add: nth_append l0)
  next
    case 3
    then have e: "expand i j k = i + j + (k - j - 1)" using i by (simp add: expand_def)
    from 3 have "(slice xs 0 j @ [y] @ slice xs (i + j) (length xs)) ! k
        = slice xs (i + j) (length xs) ! (k - j - 1)"
      by (simp add: nth_append l0 nth_Cons')
    also have "\<dots> = xs ! (i + j + (k - j - 1))"
      using 3 k i r by (simp add: slice_def)
    finally show ?thesis using 3 unfolding e by simp
  qed
qed

lemma collapse_length:
  assumes "1 \<le> i" and "j + i \<le> length xs"
  shows "length (slice xs 0 j @ [y] @ slice xs (i + j) (length xs)) = length xs - i + 1"
  using assms by (simp add: slice_def)

text \<open>The new component: the ranks of the entries of the range among themselves.\<close>

lemma component_result:
  assumes d: "distinct B" and r: "j + i \<le> length B"
    and s: "standardize (slice B j (i + j)) = Inr component"
  shows "is_perm component" and "length component = i"
    and "\<And>k. k < i \<Longrightarrow> component ! k = int (card {x. inside j i x \<and> B ! x < B ! (j + k)})"
proof -
  let ?L = "slice B j (i + j)"
  have dl: "distinct ?L" using d by (simp add: slice_def)
  have len: "length ?L = i" using r by (simp add: slice_def)
  note res = standardize_result [OF dl s]
  show "is_perm component" by (rule res(1))
  show "length component = i" using res(2) len by simp
  fix k assume k: "k < i"
  have W: "set ?L = {B ! x | x. inside j i x}"
    using slice_set [OF r] by (simp add: add.commute)
  have nth: "?L ! k = B ! (j + k)" using k r by (simp add: slice_def)
  from s standardize_distinct [OF dl] have "component = map (rank_in ?L) ?L" by simp
  with k len nth have "component ! k = rank_in ?L (B ! (j + k))" by simp
  also have "\<dots> = int (card {y \<in> set ?L. y < B ! (j + k)})" by (simp add: rank_in_def)
  also have "{y \<in> set ?L. y < B ! (j + k)}
      = (\<lambda>x. B ! x) ` {x. inside j i x \<and> B ! x < B ! (j + k)}"
    unfolding W by blast
  also have "card \<dots> = card {x. inside j i x \<and> B ! x < B ! (j + k)}"
  proof (rule card_image, rule inj_onI)
    fix x y
    assume "x \<in> {x. inside j i x \<and> B ! x < B ! (j + k)}"
      and "y \<in> {x. inside j i x \<and> B ! x < B ! (j + k)}" and e: "B ! x = B ! y"
    then have "x < length B" "y < length B" using r by (simp_all add: inside_def)
    with e d show "x = y" by (simp add: nth_eq_iff_index_eq)
  qed
  finally show "component ! k = int (card {x. inside j i x \<and> B ! x < B ! (j + k)})" .
qed

lemma finite_inside [simp]: "finite {x. inside j i x \<and> Q x}"
proof -
  have "{x. inside j i x \<and> Q x} \<subseteq> {..< j + i}" by (auto simp: inside_def)
  then show ?thesis by (rule finite_subset) simp
qed

text \<open>The shift of a block, split into what the range gives and what the rest gives.\<close>

lemma shift_below_split:
  assumes r: "j + i \<le> length B" and sing: "\<And>x. inside j i x \<Longrightarrow> C ! x = [0]"
  shows "shift_below B C v
    = (\<Sum>x \<in> {x. x < length B \<and> \<not> inside j i x \<and> B ! x < v}. int (length (C ! x)))
      + int (card {x. inside j i x \<and> B ! x < v})"
proof -
  let ?O = "{x. x < length B \<and> \<not> inside j i x \<and> B ! x < v}"
  let ?I = "{x. inside j i x \<and> B ! x < v}"
  have u: "{x. x < length B \<and> B ! x < v} = ?O \<union> ?I"
    using r by (auto simp: inside_def)
  have dj: "?O \<inter> ?I = {}" by blast
  have fo: "finite ?O" by simp
  have "shift_below B C v = (\<Sum>x \<in> ?O. int (length (C ! x))) + (\<Sum>x \<in> ?I. int (length (C ! x)))"
    unfolding shift_below_def u by (rule sum.union_disjoint [OF fo finite_inside dj])
  also have "(\<Sum>x \<in> ?I. int (length (C ! x))) = (\<Sum>x \<in> ?I. 1)"
    by (rule sum.cong) (simp_all add: sing)
  also have "\<dots> = int (card ?I)" by simp
  finally show ?thesis .
qed

lemma shift_below_at:
  assumes j: "j < length B'"
  shows "shift_below B' C' v
    = (\<Sum>l \<in> {l. l < length B' \<and> l \<noteq> j \<and> B' ! l < v}. int (length (C' ! l)))
      + (if B' ! j < v then int (length (C' ! j)) else 0)"
proof -
  let ?O = "{l. l < length B' \<and> l \<noteq> j \<and> B' ! l < v}"
  have fo: "finite ?O" by simp
  show ?thesis
  proof (cases "B' ! j < v")
    case True
    with j have u: "{l. l < length B' \<and> B' ! l < v} = insert j ?O" by auto
    have "j \<notin> ?O" by simp
    from sum.insert [OF fo this] True show ?thesis
      unfolding shift_below_def u by simp
  next
    case False
    then have u: "{l. l < length B' \<and> B' ! l < v} = ?O" by auto
    from False show ?thesis unfolding shift_below_def u by simp
  qed
qed

lemma convex_side_above:
  assumes d: "distinct B" and cv: "convex_at B i j" and r: "j + i \<le> length B"
    and x: "x < length B" "\<not> inside j i x" and a: "inside j i a" and b: "inside j i b"
  shows "(B ! a < B ! x) = (B ! b < B ! x)"
proof -
  have la: "a < length B" and lb: "b < length B" using a b r by (simp_all add: inside_def)
  from x a b have "x \<noteq> a" "x \<noteq> b" by auto
  with d x(1) la lb have ne: "B ! x \<noteq> B ! a" "B ! x \<noteq> B ! b"
    by (simp_all add: nth_eq_iff_index_eq)
  from convex_side [OF d cv r x a b] ne show ?thesis by linarith
qed

text \<open>
  One round of the loop of \<^verbatim>\<open>decomposition\<close> on a range whose components are all the
  one-point permutation: the blocks of the new base and components, put one after the
  other, are those of the old ones.
\<close>

lemma collapse_blocks:
  assumes p: "is_perm B" and lc: "length C = length B" and i: "1 \<le> i" and r: "j + i \<le> length B"
    and iv: "interval_at B i j" and sing: "\<And>x. inside j i x \<Longrightarrow> C ! x = [0]"
    and sb: "standardize (slice B 0 j @ [B ! j] @ slice B (i + j) (length B)) = Inr B'"
    and sc: "standardize (slice B j (i + j)) = Inr component"
    and C': "C' = slice C 0 j @ [component] @ slice C (i + j) (length B)"
  shows "concat (map (block B' C') [0 ..< length B']) = concat (map (block B C) [0 ..< length B])"
proof -
  from p have d: "distinct B" by (simp add: is_perm_def)
  note nb = new_base_result [OF p i r sb]
  note cr = component_result [OF d r sc]
  have m': "length B' = length B - i + 1" by (rule nb(2))
  have jm: "j < length B'" using m' i r by simp
  have cv: "convex_at B i j" using interval_at_convex [OF p i r] iv by simp
  have ej: "expand i j j = j" by (simp add: expand_def)
  have insj: "inside j i j" using i by (simp add: inside_def)
  have rc: "j + i \<le> length C" using r lc by simp
  have C'j: "C' ! j = component"
    unfolding C' lc [symmetric] using collapse_nth [OF i rc, of j component] jm m' lc by simp
  have C'l: "C' ! l = C ! expand i j l" if "l < length B'" "l \<noteq> j" for l
    unfolding C' lc [symmetric] using collapse_nth [OF i rc, of l component] that m' lc by simp
  have ord: "(B' ! k < B' ! l) = (B ! expand i j k < B ! expand i j l)"
    if "k < length B'" "l < length B'" for k l
    by (rule nb(3) [OF that])
  have out: "(\<Sum>l \<in> {l. l < length B' \<and> l \<noteq> j \<and> B' ! l < B' ! k}. int (length (C' ! l)))
      = (\<Sum>x \<in> {x. x < length B \<and> \<not> inside j i x \<and> B ! x < B ! expand i j k}.
           int (length (C ! x)))"
    if k: "k < length B'" for k
  proof (rule sum.reindex_bij_witness [where i = "contract i j" and j = "expand i j"])
    fix a assume a: "a \<in> {l. l < length B' \<and> l \<noteq> j \<and> B' ! l < B' ! k}"
    show "contract i j (expand i j a) = a" by (rule contract_expand [OF i])
    from a have al: "a < length B'" "a \<noteq> j" "B' ! a < B' ! k" by simp_all
    have "expand i j a < length B" using al(1) expand_less [OF i r, of a] m' by simp
    moreover have "\<not> inside j i (expand i j a)" using al(2) expand_inside [OF i, of j a] by simp
    moreover have "B ! expand i j a < B ! expand i j k" using al(3) ord [OF al(1) k] by simp
    ultimately show "expand i j a
        \<in> {x. x < length B \<and> \<not> inside j i x \<and> B ! x < B ! expand i j k}" by simp
    show "int (length (C ! expand i j a)) = int (length (C' ! a))"
      using C'l [OF al(1,2)] by simp
  next
    fix b assume b: "b \<in> {x. x < length B \<and> \<not> inside j i x \<and> B ! x < B ! expand i j k}"
    then have bl: "b < length B" "\<not> inside j i b" "B ! b < B ! expand i j k" by simp_all
    show e: "expand i j (contract i j b) = b" by (rule expand_contract [OF i bl(2)])
    have cl: "contract i j b < length B'" using contract_less [OF i r bl(1)] m' by simp
    have cn: "contract i j b \<noteq> j" using bl(2) i by (auto simp: contract_def inside_def)
    have "B' ! contract i j b < B' ! k" using ord [OF cl k] e bl(3) by simp
    with cl cn show "contract i j b \<in> {l. l < length B' \<and> l \<noteq> j \<and> B' ! l < B' ! k}" by simp
  qed
  have len_cj: "int (length (C' ! j)) = int i" using C'j cr(2) by simp
  have split: "shift_below B C v
    = (\<Sum>x \<in> {x. x < length B \<and> \<not> inside j i x \<and> B ! x < v}. int (length (C ! x)))
      + int (card {x. inside j i x \<and> B ! x < v})" for v
    by (rule shift_below_split [OF r]) (rule sing)
  have sh_out: "shift_below B' C' (B' ! l) = shift_below B C (B ! expand i j l)"
    if l: "l < length B'" "l \<noteq> j" for l
  proof -
    have nin: "\<not> inside j i (expand i j l)" using expand_inside [OF i, of j l] l by simp
    have el: "expand i j l < length B" using expand_less [OF i r, of l] l m' by simp
    have side: "(B ! x < B ! expand i j l) = (B ! j < B ! expand i j l)" if "inside j i x" for x
      by (rule convex_side_above [OF d cv r el nin that insj])
    have card: "int (card {x. inside j i x \<and> B ! x < B ! expand i j l})
        = (if B' ! j < B' ! l then int i else 0)"
    proof (cases "B ! j < B ! expand i j l")
      case True
      with side have "{x. inside j i x \<and> B ! x < B ! expand i j l} = {j ..< j + i}"
        by (auto simp: inside_def)
      with True ord [OF jm l(1)] ej show ?thesis by simp
    next
      case False
      with side have "{x. inside j i x \<and> B ! x < B ! expand i j l} = {}" by auto
      with False ord [OF jm l(1)] ej show ?thesis by simp
    qed
    have "shift_below B' C' (B' ! l)
        = (\<Sum>x \<in> {x. x < length B \<and> \<not> inside j i x \<and> B ! x < B ! expand i j l}.
             int (length (C ! x)))
          + (if B' ! j < B' ! l then int i else 0)"
      unfolding shift_below_at [OF jm, of C' "B' ! l"] out [OF l(1)] len_cj ..
    also have "\<dots> = shift_below B C (B ! expand i j l)"
      by (simp only: split [of "B ! expand i j l"] card)
    finally show ?thesis .
  qed
  have blk_out: "block B' C' l = block B C (expand i j l)" if l: "l < length B'" "l \<noteq> j" for l
    unfolding block_def sh_out [OF l] C'l [OF l] ..
  have sh_j: "shift_below B' C' (B' ! j)
      = (\<Sum>x \<in> {x. x < length B \<and> \<not> inside j i x \<and> B ! x < B ! j}. int (length (C ! x)))"
    unfolding shift_below_at [OF jm, of C' "B' ! j"] out [OF jm] ej by simp
  have sh_in: "shift_below B C (B ! x) = component ! (x - j) + shift_below B' C' (B' ! j)"
    if x: "inside j i x" for x
  proof -
    have "{y. y < length B \<and> \<not> inside j i y \<and> B ! y < B ! x}
        = {y. y < length B \<and> \<not> inside j i y \<and> B ! y < B ! j}"
      using convex_side [OF d cv r _ _ x insj] by blast
    moreover from x have "x - j < i" "j + (x - j) = x" by (auto simp: inside_def)
    with cr(3) [of "x - j"]
    have "component ! (x - j) = int (card {y. inside j i y \<and> B ! y < B ! x})" by simp
    ultimately show ?thesis
      unfolding split [of "B ! x"] sh_j by simp
  qed
  have mid: "block B' C' j = concat (map (block B C) [j ..< j + i])"
  proof -
    have "map (block B C) [j ..< j + i] = map (\<lambda>x. [shift_below B C (B ! x)]) [j ..< j + i]"
      by (rule map_cong [OF refl]) (simp add: block_def sing inside_def)
    then have "concat (map (block B C) [j ..< j + i])
        = concat (map (\<lambda>x. [shift_below B C (B ! x)]) [j ..< j + i])" by (rule arg_cong)
    also have "\<dots> = map (\<lambda>x. shift_below B C (B ! x)) [j ..< j + i]"
      by (induction "[j ..< j + i]" arbitrary: i) simp_all
    also have "\<dots> = map (\<lambda>c. c + shift_below B' C' (B' ! j)) component"
    proof (rule nth_equalityI)
      show "length (map (\<lambda>x. shift_below B C (B ! x)) [j ..< j + i])
          = length (map (\<lambda>c. c + shift_below B' C' (B' ! j)) component)"
        using cr(2) by simp
    next
      fix k assume "k < length (map (\<lambda>x. shift_below B C (B ! x)) [j ..< j + i])"
      then have k: "k < i" by simp
      then have "inside j i (j + k)" by (simp add: inside_def)
      from sh_in [OF this] k cr(2)
      show "map (\<lambda>x. shift_below B C (B ! x)) [j ..< j + i] ! k
          = map (\<lambda>c. c + shift_below B' C' (B' ! j)) component ! k"
        by simp
    qed
    finally show ?thesis unfolding block_def C'j by simp
  qed
  have low: "map (block B' C') [0 ..< j] = map (block B C) [0 ..< j]"
  proof (rule map_cong [OF refl])
    fix l assume "l \<in> set [0 ..< j]"
    then have l: "l < length B'" "l \<noteq> j" using jm by simp_all
    from l(2) \<open>l \<in> set [0 ..< j]\<close> have "expand i j l = l" by (simp add: expand_def)
    with blk_out [OF l] show "block B' C' l = block B C l" by simp
  qed
  have high: "map (block B' C') [Suc j ..< length B'] = map (block B C) [j + i ..< length B]"
  proof (rule nth_equalityI)
    have "length B' - Suc j = length B - (j + i)" using m' i r by arith
    then show "length (map (block B' C') [Suc j ..< length B'])
        = length (map (block B C) [j + i ..< length B])"
      by simp
  next
    fix k assume "k < length (map (block B' C') [Suc j ..< length B'])"
    then have k: "Suc j + k < length B'" by simp
    then have l: "Suc j + k < length B'" "Suc j + k \<noteq> j" by simp_all
    have e: "expand i j (Suc j + k) = j + i + k" using i by (simp add: expand_def)
    from k m' i r have k': "j + i + k < length B" by simp
    from blk_out [OF l] e k k'
    show "map (block B' C') [Suc j ..< length B'] ! k = map (block B C) [j + i ..< length B] ! k"
      by simp
  qed
  have "[0 ..< length B'] = [0 ..< j] @ [j] @ [Suc j ..< length B']"
  proof -
    from jm have "length B' = j + (length B' - j)" by simp
    then have "[0 ..< length B'] = [0 ..< j] @ [j ..< j + (length B' - j)]"
      using upt_add_eq_append [of 0 j "length B' - j"] by simp
    also have "[j ..< j + (length B' - j)] = j # [Suc j ..< length B']"
      using jm by (simp add: upt_conv_Cons)
    finally show ?thesis by simp
  qed
  then have "concat (map (block B' C') [0 ..< length B'])
      = concat (map (block B' C') [0 ..< j]) @ block B' C' j
        @ concat (map (block B' C') [Suc j ..< length B'])"
    by simp
  also have "\<dots> = concat (map (block B C) [0 ..< j]) @ concat (map (block B C) [j ..< j + i])
        @ concat (map (block B C) [j + i ..< length B])"
    unfolding low high mid ..
  also have "\<dots> = concat (map (block B C) ([0 ..< j] @ [j ..< j + i] @ [j + i ..< length B]))"
    by simp
  also have "[0 ..< j] @ [j ..< j + i] @ [j + i ..< length B] = [0 ..< length B]"
  proof -
    from r have e: "length B = j + i + (length B - (j + i))" by simp
    have "[0 ..< j + i] = [0 ..< j] @ [j ..< j + i]"
      using upt_add_eq_append [of 0 j i] by simp
    moreover have "[0 ..< j + i + (length B - (j + i))]
        = [0 ..< j + i] @ [j + i ..< j + i + (length B - (j + i))]"
      using upt_add_eq_append [of 0 "j + i" "length B - (j + i)"] by simp
    ultimately show ?thesis using e by simp
  qed
  finally show ?thesis .
qed

text \<open>\<^verbatim>\<open>maximal_interval\<close> tries the sizes from the largest down: no larger range passes.\<close>

lemma maximal_interval_outer_largest:
  "maximal_interval_outer self (rev [2 ..< n]) = Some (i, j) \<Longrightarrow>
     i < i' \<Longrightarrow> i' < n \<Longrightarrow> j' < length self - i' + 1 \<Longrightarrow> \<not> interval_at self i' j'"
proof (induction n)
  case 0
  then show ?case by simp
next
  case (Suc n)
  show ?case
  proof (cases "2 \<le> n")
    case False
    then have "[2 ..< Suc n] = []" by simp
    with Suc.prems(1) show ?thesis by simp
  next
    case True
    then have e: "rev [2 ..< Suc n] = n # rev [2 ..< n]" by simp
    show ?thesis
    proof (cases "maximal_interval_inner self n [0 ..< length self - n + 1]")
      case (Some r)
      with Suc.prems(1) e
      have "maximal_interval_inner self n [0 ..< length self - n + 1] = Some (i, j)" by simp
      from maximal_interval_inner_Some [OF this] have "i = n" by simp
      with Suc.prems(2,3) show ?thesis by simp
    next
      case None
      with Suc.prems(1) e have o: "maximal_interval_outer self (rev [2 ..< n]) = Some (i, j)"
        by simp
      show ?thesis
      proof (cases "i' = n")
        case True
        from None maximal_interval_inner_None [of self n "[0 ..< length self - n + 1]"]
        have "\<forall>j \<in> set [0 ..< length self - n + 1]. \<not> interval_at self n j" by simp
        with True Suc.prems(4) show ?thesis by (simp del: upt_Suc)
      next
        case False
        with Suc.prems(3) have "i' < n" by simp
        from Suc.IH [OF o Suc.prems(2) this Suc.prems(4)] show ?thesis .
      qed
    qed
  qed
qed

lemma maximal_interval_largest:
  assumes "maximal_interval self = (i, j)" and "i \<noteq> 0"
    and "i < i'" and "i' < length self" and "j' + i' \<le> length self"
  shows "\<not> interval_at self i' j'"
proof -
  from assms(1,2) have o: "maximal_interval_outer self (rev [2 ..< length self]) = Some (i, j)"
    by (auto simp: maximal_interval_def split: option.splits)
  from assms(5) have "j' < length self - i' + 1" by simp
  from maximal_interval_outer_largest [OF o assms(3,4) this] show ?thesis .
qed

text \<open>The order of two entries of the old base, not both in the range, is that of the new base.\<close>

lemma contract_order:
  assumes p: "is_perm B" and i: "1 \<le> i" and r: "j + i \<le> length B"
    and iv: "interval_at B i j"
    and sb: "standardize (slice B 0 j @ [B ! j] @ slice B (i + j) (length B)) = Inr B'"
    and x: "x < length B" and a: "a < length B" and o: "\<not> inside j i x \<or> \<not> inside j i a"
  shows "(B ! a < B ! x) = (B' ! contract i j a < B' ! contract i j x)"
proof -
  from p have d: "distinct B" by (simp add: is_perm_def)
  note nb = new_base_result [OF p i r sb]
  have cv: "convex_at B i j" using interval_at_convex [OF p i r] iv by simp
  have insj: "inside j i j" using i by (simp add: inside_def)
  have cx: "contract i j x < length B'" and ca: "contract i j a < length B'"
    using contract_less [OF i r] x a nb(2) by simp_all
  have ein: "expand i j (contract i j y) = j" if "inside j i y" for y
    using that by (simp add: contract_def expand_def inside_def)
  have "(B' ! contract i j a < B' ! contract i j x)
      = (B ! expand i j (contract i j a) < B ! expand i j (contract i j x))"
    by (rule nb(3) [OF ca cx])
  also have "\<dots> = (B ! a < B ! x)"
  proof (cases "inside j i x")
    case True
    with o have na: "\<not> inside j i a" by simp
    from convex_side [OF d cv r a na True insj] ein [OF True] expand_contract [OF i na]
    show ?thesis by simp
  next
    case nx: False
    show ?thesis
    proof (cases "inside j i a")
      case True
      from convex_side_above [OF d cv r x nx True insj] ein [OF True] expand_contract [OF i nx]
      show ?thesis by simp
    next
      case False
      with nx expand_contract [OF i] show ?thesis by simp
    qed
  qed
  finally show ?thesis by simp
qed

text \<open>
  What the loop of \<^verbatim>\<open>decomposition\<close> keeps: every component inside a proper interval of
  the base is still the one-point permutation.  The loop replaces the components of the
  range it collapses by the standardised range itself, so it relies on this.
\<close>

definition tidy :: "perm \<Rightarrow> perm list \<Rightarrow> bool" where
  "tidy B C =
     (\<forall>i j x. 2 \<le> i \<and> i < length B \<and> j + i \<le> length B \<and> interval_at B i j \<and> inside j i x
        \<longrightarrow> C ! x = [0])"

lemma tidy_step:
  assumes p: "is_perm B" and lc: "length C = length B"
    and i2: "2 \<le> i" and im: "i < length B" and r: "j + i \<le> length B"
    and iv: "interval_at B i j"
    and mx: "\<And>i' j'. i < i' \<Longrightarrow> i' < length B \<Longrightarrow> j' + i' \<le> length B
               \<Longrightarrow> \<not> interval_at B i' j'"
    and td: "tidy B C"
    and sb: "standardize (slice B 0 j @ [B ! j] @ slice B (i + j) (length B)) = Inr B'"
    and C': "C' = slice C 0 j @ [component] @ slice C (i + j) (length B)"
  shows "tidy B' C'"
  unfolding tidy_def
proof (intro allI impI)
  fix s t y
  assume h: "2 \<le> s \<and> s < length B' \<and> t + s \<le> length B' \<and> interval_at B' s t \<and> inside t s y"
  from i2 have i: "1 \<le> i" by simp
  note nb = new_base_result [OF p i r sb]
  have m': "length B' = length B - i + 1" by (rule nb(2))
  from h have hs: "2 \<le> s" and sm: "s < length B'" and ts: "t + s \<le> length B'"
    and ivs: "interval_at B' s t" and yin: "inside t s y" by simp_all
  from hs have s1: "1 \<le> s" by simp
  have cvs: "convex_at B' s t" using interval_at_convex [OF nb(1) s1 ts] ivs by simp
  note co = contract_order [OF p i r iv sb]
  have cl: "contract i j x < length B'" if "x < length B" for x
    using contract_less [OF i r that] m' by simp
  show "C' ! y = [0]"
  proof (cases "inside t s j")
    case True
    have r': "t + (s + i - 1) \<le> length B" using ts m' i2 im by arith
    have s1': "1 \<le> s + i - 1" using hs by simp
    have "convex_at B (s + i - 1) t"
      unfolding convex_at_def
    proof (intro allI impI notI)
      fix x a b
      assume g: "x < length B \<and> \<not> inside t (s + i - 1) x
          \<and> inside t (s + i - 1) a \<and> inside t (s + i - 1) b"
        and o: "B ! a < B ! x \<and> B ! x < B ! b"
      from g have xl: "x < length B" by simp
      from g r' have la: "a < length B" and lb: "b < length B" by (simp_all add: inside_def)
      from g True i2 have nx: "\<not> inside j i x" by (auto simp: inside_def)
      from g True i2 have cx: "\<not> inside t s (contract i j x)"
        by (auto simp: inside_def contract_def)
      from g True i2 have ca: "inside t s (contract i j a)" and cb: "inside t s (contract i j b)"
        by (auto simp: inside_def contract_def)
      from o co [OF xl la disjI1 [OF nx]]
      have 1: "B' ! contract i j a < B' ! contract i j x" by simp
      from o co [OF lb xl disjI2 [OF nx]]
      have 2: "B' ! contract i j x < B' ! contract i j b" by simp
      from cvs cl [OF xl] cx ca cb 1 2 show False unfolding convex_at_def by blast
    qed
    then have "interval_at B (s + i - 1) t" using interval_at_convex [OF p s1' r'] by simp
    moreover have "i < s + i - 1" using hs by simp
    moreover have "s + i - 1 < length B" using sm m' i2 im by arith
    ultimately show ?thesis using mx [of "s + i - 1" t] r' by blast
  next
    case False
    with yin have yj: "y \<noteq> j" by auto
    from yin ts have yl: "y < length B'" by (simp add: inside_def)
    have rc: "j + i \<le> length C" using r lc by simp
    have C'y: "C' ! y = C ! expand i j y"
      unfolding C' lc [symmetric] using collapse_nth [OF i rc, of y component] yl yj m' lc by simp
    have r': "expand i j t + s \<le> length B" using ts m' i2 im False hs
      by (auto simp: expand_def inside_def)
    have win: "\<not> inside j i u \<and> inside t s (contract i j u)" if "inside (expand i j t) s u" for u
      using that False i2 hs by (auto simp: inside_def contract_def expand_def split: if_splits)
    have wout: "\<not> inside t s (contract i j u)"
      if "\<not> inside (expand i j t) s u" and "\<not> inside j i u" for u
      using that False i2 hs by (auto simp: inside_def contract_def expand_def split: if_splits)
    have "convex_at B s (expand i j t)"
      unfolding convex_at_def
    proof (intro allI impI notI)
      fix x a b
      assume g: "x < length B \<and> \<not> inside (expand i j t) s x
          \<and> inside (expand i j t) s a \<and> inside (expand i j t) s b"
        and o: "B ! a < B ! x \<and> B ! x < B ! b"
      from g have xl: "x < length B" by simp
      from g r' have la: "a < length B" and lb: "b < length B" by (simp_all add: inside_def)
      from g win have na: "\<not> inside j i a" and nb': "\<not> inside j i b"
        and ca: "inside t s (contract i j a)" and cb: "inside t s (contract i j b)" by blast+
      have cx: "\<not> inside t s (contract i j x)"
      proof (cases "inside j i x")
        case True
        then have "contract i j x = j" by (simp add: contract_def inside_def)
        with False show ?thesis by simp
      next
        case nx: False
        from g have "\<not> inside (expand i j t) s x" by simp
        from wout [OF this nx] show ?thesis .
      qed
      from o co [OF xl la disjI2 [OF na]]
      have 1: "B' ! contract i j a < B' ! contract i j x" by simp
      from o co [OF lb xl disjI1 [OF nb']]
      have 2: "B' ! contract i j x < B' ! contract i j b" by simp
      from cvs cl [OF xl] cx ca cb 1 2 show False unfolding convex_at_def by blast
    qed
    then have ivo: "interval_at B s (expand i j t)" using interval_at_convex [OF p s1 r'] by simp
    have yo: "inside (expand i j t) s (expand i j y)"
      using yin False i2 by (auto simp: inside_def expand_def)
    have "s < length B" using sm m' i2 im by arith
    with td hs r' ivo yo have "C ! expand i j y = [0]" unfolding tidy_def by blast
    with C'y show ?thesis by simp
  qed
qed

lemma inflate_singletons:
  assumes p: "is_perm P"
  shows "inflate P (replicate (length P) [0]) = Inr P"
proof -
  let ?C = "replicate (length P) [0 :: int]"
  from p have d: "distinct P" by (simp add: is_perm_def)
  have c: "is_perm (?C ! x)" if "x < length P" for x using that by (simp add: is_perm_def)
  have sh: "shift_below P ?C (P ! x) = P ! x" if x: "x < length P" for x
  proof -
    have "shift_below P ?C (P ! x) = (\<Sum>y \<in> {y. y < length P \<and> P ! y < P ! x}. 1)"
      unfolding shift_below_def by (rule sum.cong) simp_all
    also have "\<dots> = int (card {y. y < length P \<and> P ! y < P ! x})" by simp
    also have "\<dots> = rank_in P (P ! x)" by (rule rank_in_nth [OF d x, symmetric])
    also have "\<dots> = P ! x" using x by (intro is_perm_rank [OF p]) simp
    finally show ?thesis .
  qed
  have "map (block P ?C) [0 ..< length P] = map (\<lambda>x. [P ! x]) [0 ..< length P]"
    by (rule map_cong [OF refl]) (simp add: block_def sh)
  then have "concat (map (block P ?C) [0 ..< length P])
      = concat (map (\<lambda>x. [P ! x]) [0 ..< length P])" by (rule arg_cong)
  also have "\<dots> = map (\<lambda>x. P ! x) [0 ..< length P]"
    by (induction "length P" arbitrary: P) simp_all
  also have "\<dots> = P" by (rule map_nth)
  finally have "concat (map (block P ?C) [0 ..< length P]) = P" .
  moreover have "length ?C = length P" by simp
  ultimately show ?thesis using inflate_perm [OF p _ c] by simp
qed

lemma tidy_singletons: "tidy P (replicate (length P) [0])"
  by (simp add: tidy_def inside_def)

text \<open>Every round of the loop leaves the inflation of the base by the components as it is.\<close>

lemma decomposition_while_inflate:
  "is_perm base \<Longrightarrow> length comps = length base
     \<Longrightarrow> (\<And>x. x < length base \<Longrightarrow> is_perm (comps ! x)) \<Longrightarrow> tidy base comps
     \<Longrightarrow> decomposition_while t base comps = Inr (b, cs)
     \<Longrightarrow> inflate b cs = inflate base comps"
proof (induction t base comps rule: decomposition_while.induct)
  case (1 t base comps)
  note p = "1.prems"(1) and lc = "1.prems"(2) and pc = "1.prems"(3) and td = "1.prems"(4)
    and res = "1.prems"(5)
  show ?case
  proof (cases "t base")
    case True
    with res [unfolded decomposition_while.simps [of t base comps]]
    show ?thesis by (simp del: decomposition_while.simps)
  next
    case False
    from decomposition_while_stepE [OF False res]
    obtain i j base_j component base' where
      mi: "maximal_interval base = (i, j)" and i0: "i \<noteq> 0" and lc': "length base = length comps"
      and g: "py_get base (int j) = Inr base_j"
      and c: "standardize (slice base j (i + j)) = Inr component"
      and b: "standardize (slice base 0 j @ [base_j] @ slice base (i + j) (length base)) = Inr base'"
      and r: "decomposition_while t base'
                (slice comps 0 j @ [component] @ slice comps (i + j) (length base)) = Inr (b, cs)"
      by blast
    let ?C' = "slice comps 0 j @ [component] @ slice comps (i + j) (length base)"
    from maximal_interval_found [OF mi i0]
    have i2: "2 \<le> i" and im: "i < length base" and rr: "j + i \<le> length base"
      and iv: "interval_at base i j" by (simp_all add: add.commute)
    from i2 have i1: "1 \<le> i" by simp
    from py_get_Inr [OF g] have bj: "base_j = base ! j" by simp
    note b' = b [unfolded bj]
    from p have d: "distinct base" by (simp add: is_perm_def)
    note nb = new_base_result [OF p i1 rr b']
    note cr = component_result [OF d rr c]
    have sing: "comps ! x = [0]" if "inside j i x" for x
      using td i2 im rr iv that unfolding tidy_def by blast
    have mx: "\<not> interval_at base i' j'"
      if "i < i'" "i' < length base" "j' + i' \<le> length base" for i' j'
      by (rule maximal_interval_largest [OF mi i0 that])
    have td': "tidy base' ?C'"
      by (rule tidy_step [OF p lc i2 im rr iv mx td b' refl])
    have rc: "j + i \<le> length comps" using rr lc by simp
    have lC': "length ?C' = length base'"
      using collapse_length [OF i1 rc, of component] nb(2) lc by simp
    have pC': "is_perm (?C' ! x)" if x: "x < length base'" for x
    proof -
      from x nb(2) lc have xl: "x < length comps - i + 1" by simp
      have e: "?C' ! x = (if x = j then component else comps ! expand i j x)"
        using collapse_nth [OF i1 rc xl, of component] lc by simp
      have "expand i j x < length base" using expand_less [OF i1 rr, of x] x nb(2) by simp
      from pc [OF this] cr(1) e show ?thesis by simp
    qed
    from lc have nl: "\<not> length base \<noteq> length comps" by simp
    from i0 have ni: "\<not> \<not> i \<noteq> 0" by simp
    from "1.IH" [OF False nl mi [symmetric] ni refl g refl c refl b nb(1) lC' pC' td' r]
    have "inflate b cs = inflate base' ?C'" .
    also have "\<dots> = Inr (concat (map (block base' ?C') [0 ..< length base']))"
      by (rule inflate_perm [OF nb(1) lC' pC'])
    also have "concat (map (block base' ?C') [0 ..< length base'])
        = concat (map (block base comps) [0 ..< length base])"
      by (rule collapse_blocks [OF p lc i1 rr iv sing b' c refl])
    also have "Inr (concat (map (block base comps) [0 ..< length base])) = inflate base comps"
      by (rule inflate_perm [OF p lc pc, symmetric])
    finally show ?thesis .
  qed
qed

text \<open>
  The loop of \<^verbatim>\<open>decomposition\<close> raises nothing on a permutation when the loop test
  answers \<open>False\<close> only where \<^verbatim>\<open>maximal_interval\<close> finds an interval.
\<close>

lemma decomposition_while_returns:
  "is_perm base \<Longrightarrow> length comps = length base
     \<Longrightarrow> (\<And>Q. is_perm Q \<Longrightarrow> \<not> t Q \<Longrightarrow> fst (maximal_interval Q) \<noteq> 0)
     \<Longrightarrow> \<exists>b cs. decomposition_while t base comps = Inr (b, cs)"
proof (induction t base comps rule: decomposition_while.induct)
  case (1 t base comps)
  note p = "1.prems"(1) and lc = "1.prems"(2) and ok = "1.prems"(3)
  show ?case
  proof (cases "t base")
    case True
    then show ?thesis
      unfolding decomposition_while.simps [of t base comps]
      by (simp del: decomposition_while.simps)
  next
    case False
    obtain i j where mi: "maximal_interval base = (i, j)" by (cases "maximal_interval base")
    from ok [OF p False] mi have i0: "i \<noteq> 0" by simp
    from maximal_interval_found [OF mi i0]
    have i2: "2 \<le> i" and im: "i < length base" and rr: "j + i \<le> length base"
      by (simp_all add: add.commute)
    from i2 have i1: "1 \<le> i" by simp
    from p have d: "distinct base" by (simp add: is_perm_def)
    have g: "py_get base (int j) = Inr (base ! j)"
      using rr i2 by (intro py_get_in_range [of "int j" base, simplified]) simp
    have "distinct (slice base j (i + j))" using d by (simp add: slice_def)
    from standardize_distinct [OF this] obtain component where
      c: "standardize (slice base j (i + j)) = Inr component" by blast
    let ?nb = "slice base 0 j @ [base ! j] @ slice base (i + j) (length base)"
    have "distinct ?nb"
      unfolding new_base_nth [OF i1 rr] by (rule new_base_distinct [OF d i1 rr])
    from standardize_distinct [OF this] obtain base' where b: "standardize ?nb = Inr base'"
      by blast
    let ?C' = "slice comps 0 j @ [component] @ slice comps (i + j) (length base)"
    note nb = new_base_result [OF p i1 rr b]
    have rc: "j + i \<le> length comps" using rr lc by simp
    have lC': "length ?C' = length base'"
      using collapse_length [OF i1 rc, of component] nb(2) lc by simp
    from lc have nl: "\<not> length base \<noteq> length comps" by simp
    from i0 have ni: "\<not> \<not> i \<noteq> 0" by simp
    from "1.IH" [OF False nl mi [symmetric] ni refl g refl c refl b nb(1) lC' ok]
    obtain r cs where "decomposition_while t base' ?C' = Inr (r, cs)" by blast
    moreover have "decomposition_while t base comps = decomposition_while t base' ?C'"
      unfolding decomposition_while.simps [of t base comps]
      using False lc mi i0 g c b by (simp del: decomposition_while.simps add: bind_err_def)
    ultimately show ?thesis by simp
  qed
qed

lemma decomposition_returns:
  assumes "is_perm P"
  shows "\<exists>base components. decomposition P = Inr (base, components)"
proof -
  have ok: "fst (maximal_interval Q) \<noteq> 0" if "\<not> is_simple Q" for Q
  proof
    assume z: "fst (maximal_interval Q) = 0"
    obtain i j where mi: "maximal_interval Q = (i, j)" by (cases "maximal_interval Q")
    have "maximal_interval Q = (0, 0)"
    proof (cases "maximal_interval_outer Q (rev [2 ..< length Q])")
      case None
      then show ?thesis by (simp add: maximal_interval_def)
    next
      case (Some r)
      with mi have "maximal_interval_outer Q (rev [2 ..< length Q]) = Some (i, j)"
        by (simp add: maximal_interval_def)
      from maximal_interval_outer_Some [OF this] z mi show ?thesis by simp
    qed
    with that is_simple_iff [of Q] maximal_interval_none [of Q] show False by simp
  qed
  have "\<exists>b cs. decomposition_while is_simple P (replicate (length P) [0]) = Inr (b, cs)"
    by (rule decomposition_while_returns [OF assms]) (simp_all add: ok)
  then show ?thesis
    by (simp del: decomposition_while.simps
        add: decomposition_def decomposition_with_def Let_def initial_components bind_err_def)
qed

text \<open>
  Claim C2.  For every permutation \<open>P\<close>, if \<^verbatim>\<open>decomposition\<close> returns the pair
  \<open>(base, components)\<close> then \<^verbatim>\<open>base.inflate(components)\<close> returns \<open>P\<close>.  It holds
  whatever the loop test \<^verbatim>\<open>is_simple\<close> answers: \<^verbatim>\<open>decomposition\<close> is
  \<open>decomposition_with is_simple\<close>.
\<close>

theorem decomposition_inflate_round_trip:
  assumes "is_perm P" and "decomposition_with simple_test P = Inr (base, components)"
  shows "inflate base components = Inr P"
proof -
  let ?C = "replicate (length P) [0 :: int]"
  from assms(2) have w: "decomposition_while simple_test P ?C = Inr (base, components)"
    by (simp del: decomposition_while.simps
        add: decomposition_with_def Let_def initial_components bind_err_def)
  have c: "is_perm (?C ! x)" if "x < length P" for x using that by (simp add: is_perm_def)
  have l: "length ?C = length P" by simp
  from decomposition_while_inflate [OF assms(1) l c tidy_singletons w]
  have "inflate base components = inflate P ?C" .
  with inflate_singletons [OF assms(1)] show ?thesis by simp
qed

theorem decomposition_inflate_round_trip_witness:
  "is_perm [1, 0, 3, 2]
   \<and> decomposition_with is_simple [1, 0, 3, 2] = Inr ([0, 1], [[1, 0], [1, 0]])
   \<and> inflate [0, 1] [[1, 0], [1, 0]] = Inr [1, 0, 3, 2]"
proof -
  have p: "is_perm [1, 0, 3, 2]" by (simp add: is_perm_def)
  have d: "decomposition_with is_simple [1, 0, 3, 2] = Inr ([0, 1], [[1, 0], [1, 0]])"
    by code_simp
  from decomposition_inflate_round_trip [OF p d] p d show ?thesis by blast
qed
end
